theory Spec2Isabelle
  imports Main "HOL-Library.Word"
begin

section \<open>Data model of \<open>ephemeral_buffers.go\<close>\<close>

text \<open>
  The package has two struct types, \<open>Buffer\<close> and \<open>Pool\<close>, that point at each other:
  a \<open>Buffer\<close> holds a \<open>*Pool\<close>, and a \<open>Pool\<close> holds \<open>*Buffer\<close> values in a channel and in
  a slice. Pointers are therefore explicit here. The world holds one \<open>Pool\<close> object and
  a store of \<open>Buffer\<close> objects addressed by natural numbers; a \<open>*Buffer\<close> is an optional
  address and a \<open>*Pool\<close> is either \<open>nil\<close> or the address of the one pool object.

  Go's \<open>int\<close> is modelled by \<open>int\<close>: the code does no arithmetic on its integers other
  than counting up to the length of a slice. Time is a number of nanoseconds.
\<close>

type_synonym byte = "8 word"
type_synonym time = int

datatype pool_ptr = PoolNil | PoolRef

type_synonym buf_ptr = "nat option"

text \<open>
  \<open>bytes.Buffer\<close> belongs to the Go standard library. The package only uses its
  capacity (\<open>Cap\<close>) and \<open>Reset\<close>, which truncates the contents and keeps the allocated
  array; callers change it through its own methods (\<open>Write\<close> and others).
\<close>

record bytes_Buffer =
  content :: "byte list"
  capacity :: nat

definition Cap :: "bytes_Buffer \<Rightarrow> int" where
  "Cap b = int (capacity b)"

definition Len :: "bytes_Buffer \<Rightarrow> int" where
  "Len b = int (length (content b))"

definition Reset :: "bytes_Buffer \<Rightarrow> bytes_Buffer" where
  "Reset b = b\<lparr>content := []\<rparr>"

record Buffer =
  bytesBuffer :: bytes_Buffer
  pool :: pool_ptr
  index :: int
  origSize :: int
  acquiredAt :: time
  tag :: string

text \<open>The zero value \<open>Buffer{}\<close>; the zero \<open>time.Time\<close> is written \<open>0\<close>.\<close>

definition zero_Buffer :: Buffer where
  "zero_Buffer = \<lparr>bytesBuffer = \<lparr>content = [], capacity = 0\<rparr>, pool = PoolNil, index = 0,
     origSize = 0, acquiredAt = 0, tag = []\<rparr>"

text \<open>
  A buffered channel of \<open>*Buffer\<close>: its capacity and the queued addresses, oldest first.
  The \<open>nil\<close> channel of a zero \<open>Pool\<close> has capacity 0 and nothing queued, so both sending
  and receiving block on it.
\<close>

record chan =
  chan_cap :: nat
  queue :: "nat list"

definition chan_send :: "nat \<Rightarrow> chan \<Rightarrow> chan option" where
  "chan_send x c = (if length (queue c) < chan_cap c then Some (c\<lparr>queue := queue c @ [x]\<rparr>) else None)"

definition chan_recv :: "chan \<Rightarrow> (nat \<times> chan) option" where
  "chan_recv c = (case queue c of [] \<Rightarrow> None | x # q \<Rightarrow> Some (x, c\<lparr>queue := q\<rparr>))"

text \<open>
  The \<open>Pool\<close> struct. The field \<open>size\<close> is named \<open>size_p\<close>; \<open>ctx\<close> only carries the logger
  and is represented by the log of the world; the mutex is a flag; a \<open>nil\<close> slice is the
  empty list.
\<close>

record Pool =
  size_p :: int
  count :: int
  lock :: bool
  buffersAvailable :: chan
  buffersInUse :: "buf_ptr list"

definition zero_Pool :: Pool where
  "zero_Pool = \<lparr>size_p = 0, count = 0, lock = False,
     buffersAvailable = \<lparr>chan_cap = 0, queue = []\<rparr>, buffersInUse = []\<rparr>"

text \<open>What the package writes to the logger, with the arguments of each message.\<close>

datatype log_entry =
    Error_InvalidArguments
  | Warn_Allocated string int int
  | Warn_Held string int
  | Debug_Exiting

record world =
  pool_obj :: Pool
  heap :: "nat \<Rightarrow> Buffer"
  allocated :: nat
  logged :: "log_entry list"

text \<open>
  A call returns a value, panics (the Go runtime errors of this code are the \<open>nil\<close>
  dereference and the slice index out of range), or blocks for ever on the mutex or on
  the channel, since no other goroutine runs during the call.
\<close>

datatype wait = OnLock | OnReceive | OnSend

datatype panic = NilPointerDereference | IndexOutOfRange int nat

datatype 'a outcome = Returns 'a world | Panics panic world | Blocks wait world

fun state_of :: "'a outcome \<Rightarrow> world" where
  "state_of (Returns _ w) = w"
| "state_of (Panics _ w) = w"
| "state_of (Blocks _ w) = w"

fun returns :: "'a outcome \<Rightarrow> bool" where
  "returns (Returns _ _) = True"
| "returns _ = False"

fun panics :: "'a outcome \<Rightarrow> bool" where
  "panics (Panics _ _) = True"
| "panics _ = False"

definition Lock :: "world \<Rightarrow> world option" where
  "Lock w = (if lock (pool_obj w) then None else Some (w\<lparr>pool_obj := (pool_obj w)\<lparr>lock := True\<rparr>\<rparr>))"

definition Unlock :: "world \<Rightarrow> world" where
  "Unlock w = w\<lparr>pool_obj := (pool_obj w)\<lparr>lock := False\<rparr>\<rparr>"

section \<open>\<open>Buffer.Release\<close>\<close>

definition Release :: "buf_ptr \<Rightarrow> world \<Rightarrow> unit outcome" where
  "Release ebp w =
     (case ebp of
        None \<Rightarrow> Panics NilPointerDereference w
      | Some eb \<Rightarrow>
          (if pool (heap w eb) = PoolNil then Returns () w
           else
             (let w1 = (if Cap (bytesBuffer (heap w eb)) > origSize (heap w eb)
                        then w\<lparr>logged := logged w @ [Warn_Allocated (tag (heap w eb))
                                   (Cap (bytesBuffer (heap w eb))) (size_p (pool_obj w))],
                               heap := (heap w)(eb := (heap w eb)\<lparr>origSize := Cap (bytesBuffer (heap w eb))\<rparr>)\<rparr>
                        else w)
              in (case Lock w1 of
                    None \<Rightarrow> Blocks OnLock w1
                  | Some w2 \<Rightarrow>
                      (let i = index (heap w2 eb); n = length (buffersInUse (pool_obj w2)) in
                       if i < 0 \<or> int n \<le> i then Panics (IndexOutOfRange i n) w2
                       else
                         (let w3 = Unlock (w2\<lparr>pool_obj := (pool_obj w2)
                                    \<lparr>buffersInUse := (buffersInUse (pool_obj w2))[nat i := None]\<rparr>\<rparr>);
                              w4 = w3\<lparr>heap := (heap w3)(eb := (heap w3 eb)
                                    \<lparr>index := - 1, tag := [], bytesBuffer := Reset (bytesBuffer (heap w3 eb))\<rparr>)\<rparr>
                          in (case chan_send eb (buffersAvailable (pool_obj w4)) of
                                None \<Rightarrow> Blocks OnSend w4
                              | Some ch \<Rightarrow>
                                  Returns () (w4\<lparr>pool_obj := (pool_obj w4)\<lparr>buffersAvailable := ch\<rparr>\<rparr>))))))))"

section \<open>\<open>Pool.Acquire\<close>\<close>

text \<open>The loop \<open>for i := range p.buffersInUse\<close> with its \<open>break\<close>, from index \<open>i\<close> on.\<close>

function Acquire_loop :: "nat \<Rightarrow> nat \<Rightarrow> world \<Rightarrow> world" where
  "Acquire_loop eb i w =
     (if i < length (buffersInUse (pool_obj w)) then
        (if buffersInUse (pool_obj w) ! i = None
         then w\<lparr>pool_obj := (pool_obj w)\<lparr>buffersInUse := (buffersInUse (pool_obj w))[i := Some eb]\<rparr>,
                heap := (heap w)(eb := (heap w eb)\<lparr>index := int i\<rparr>)\<rparr>
         else Acquire_loop eb (Suc i) w)
      else w)"
  by pat_completeness auto
termination
  by (relation "measure (\<lambda>(eb, i, w). length (buffersInUse (pool_obj w)) - i)") auto

declare Acquire_loop.simps [simp del]

definition Acquire :: "pool_ptr \<Rightarrow> string \<Rightarrow> time \<Rightarrow> world \<Rightarrow> buf_ptr outcome" where
  "Acquire p tg now w =
     (case p of
        PoolNil \<Rightarrow> Panics NilPointerDereference w
      | PoolRef \<Rightarrow>
          (if size_p (pool_obj w) = 0 \<or> count (pool_obj w) = 0 then Returns None w
           else
             (case chan_recv (buffersAvailable (pool_obj w)) of
                None \<Rightarrow> Blocks OnReceive w
              | Some (eb, ch) \<Rightarrow>
                  (let w1 = w\<lparr>pool_obj := (pool_obj w)\<lparr>buffersAvailable := ch\<rparr>\<rparr> in
                   (case Lock w1 of
                      None \<Rightarrow> Blocks OnLock w1
                    | Some w2 \<Rightarrow>
                        (let w3 = Unlock (Acquire_loop eb 0 w2);
                             w4 = w3\<lparr>heap := (heap w3)(eb := (heap w3 eb)\<lparr>tag := tg, acquiredAt := now\<rparr>)\<rparr>
                         in Returns (Some eb) w4))))))"

section \<open>\<open>Pool.Free\<close>\<close>

text \<open>The first half of \<open>Free\<close>: \<open>p.count = 0\<close> under the lock.\<close>

definition Free_signal :: "world \<Rightarrow> world option" where
  "Free_signal w =
     (case Lock w of
        None \<Rightarrow> None
      | Some w1 \<Rightarrow> Some (Unlock (w1\<lparr>pool_obj := (pool_obj w1)\<lparr>count := 0\<rparr>\<rparr>)))"

text \<open>The loop \<open>for i := 0; i < count; i++ { <-p.buffersAvailable }\<close>, from \<open>i\<close> on.\<close>

function Free_loop :: "int \<Rightarrow> int \<Rightarrow> world \<Rightarrow> unit outcome" where
  "Free_loop i cnt w =
     (if i < cnt then
        (case chan_recv (buffersAvailable (pool_obj w)) of
           None \<Rightarrow> Blocks OnReceive w
         | Some (eb, ch) \<Rightarrow> Free_loop (i + 1) cnt (w\<lparr>pool_obj := (pool_obj w)\<lparr>buffersAvailable := ch\<rparr>\<rparr>))
      else Returns () w)"
  by pat_completeness auto
termination
  by (relation "measure (\<lambda>(i, cnt, w). nat (cnt - i))") auto

declare Free_loop.simps [simp del]

definition Free :: "pool_ptr \<Rightarrow> world \<Rightarrow> unit outcome" where
  "Free p w =
     (case p of
        PoolNil \<Rightarrow> Panics NilPointerDereference w
      | PoolRef \<Rightarrow>
          (if size_p (pool_obj w) = 0 \<or> count (pool_obj w) = 0 then Returns () w
           else
             (let cnt = count (pool_obj w) in
              (case Free_signal w of
                 None \<Rightarrow> Blocks OnLock w
               | Some w2 \<Rightarrow>
                   (case Free_loop 0 cnt w2 of
                      Returns _ w3 \<Rightarrow> Returns () (w3\<lparr>pool_obj := (pool_obj w3)\<lparr>buffersInUse := []\<rparr>\<rparr>)
                    | Panics e w3 \<Rightarrow> Panics e w3
                    | Blocks b w3 \<Rightarrow> Blocks b w3)))))"

section \<open>\<open>Pool.BuffersAvailable\<close>\<close>

definition BuffersAvailable :: "pool_ptr \<Rightarrow> world \<Rightarrow> int outcome" where
  "BuffersAvailable p w =
     (case p of
        PoolNil \<Rightarrow> Panics NilPointerDereference w
      | PoolRef \<Rightarrow>
          (if size_p (pool_obj w) = 0 \<or> count (pool_obj w) = 0 then Returns 0 w
           else
             (case Lock w of
                None \<Rightarrow> Blocks OnLock w
              | Some w1 \<Rightarrow>
                  (let i = fold (\<lambda>b i. if b = None then i + 1 else i) (buffersInUse (pool_obj w1)) 0
                   in Returns i (Unlock w1)))))"

section \<open>\<open>NewPool\<close>\<close>

text \<open>
  \<open>grown\<close> is the capacity that \<open>buf.Grow(size)\<close> leaves on an empty \<open>bytes.Buffer\<close>: the
  standard library promises at least \<open>size\<close> and chooses the exact number. Each pass of
  the loop allocates one \<open>Buffer\<close> at the next free address and sends its address on the
  channel. The struct literal sets \<open>Buffer\<close>, \<open>pool\<close> and \<open>origSize\<close>, the other fields are
  zero.
\<close>

function NewPool_loop :: "int \<Rightarrow> int \<Rightarrow> int \<Rightarrow> nat \<Rightarrow> world \<Rightarrow> unit outcome" where
  "NewPool_loop i cnt sz grown w =
     (if i < cnt then
        (let r = allocated w;
             ebuf = \<lparr>bytesBuffer = \<lparr>content = [], capacity = grown\<rparr>, pool = PoolRef, index = 0,
                     origSize = sz, acquiredAt = 0, tag = []\<rparr>;
             w1 = w\<lparr>heap := (heap w)(r := ebuf), allocated := Suc r\<rparr>
         in case chan_send r (buffersAvailable (pool_obj w1)) of
              None \<Rightarrow> Blocks OnSend w1
            | Some ch \<Rightarrow> NewPool_loop (i + 1) cnt sz grown (w1\<lparr>pool_obj := (pool_obj w1)\<lparr>buffersAvailable := ch\<rparr>\<rparr>))
      else Returns () w)"
  by pat_completeness auto
termination
  by (relation "measure (\<lambda>(i, cnt, sz, grown, w). nat (cnt - i))") auto

declare NewPool_loop.simps [simp del]

definition NewPool :: "int \<Rightarrow> int \<Rightarrow> nat \<Rightarrow> world \<Rightarrow> pool_ptr outcome" where
  "NewPool cnt sz grown w =
     (if cnt \<le> 0 \<or> sz \<le> 0 then Returns PoolNil (w\<lparr>logged := logged w @ [Error_InvalidArguments]\<rparr>)
      else
        let p = \<lparr>size_p = sz, count = cnt, lock = False,
                 buffersAvailable = \<lparr>chan_cap = nat cnt, queue = []\<rparr>,
                 buffersInUse = replicate (nat cnt) None\<rparr>
        in case NewPool_loop 0 cnt sz grown (w\<lparr>pool_obj := p\<rparr>) of
             Returns _ w1 \<Rightarrow> Returns PoolRef w1
           | Panics e w1 \<Rightarrow> Panics e w1
           | Blocks b w1 \<Rightarrow> Blocks b w1)"

section \<open>One pass of \<open>Pool.poolMonitor\<close>\<close>

text \<open>
  The watchdog is \<open>for { ... time.Sleep(1 * time.Second) }\<close>. Its body runs under the
  lock from \<open>Lock\<close> to \<open>Unlock\<close>, so one pass is one step; it either returns from the
  function or goes to sleep before the next pass. \<open>now\<close> is the reading of \<open>time.Now()\<close>
  and \<open>since\<close> gives the value of \<open>time.Since\<close> for each later call.
\<close>

datatype monitor_next = Exit | Sleep

fun poolMonitor_scan :: "time \<Rightarrow> (time \<Rightarrow> int) \<Rightarrow> buf_ptr list \<Rightarrow> world \<Rightarrow> world" where
  "poolMonitor_scan now since [] w = w"
| "poolMonitor_scan now since (ebp # s) w =
     poolMonitor_scan now since s
       (case ebp of
          None \<Rightarrow> w
        | Some eb \<Rightarrow>
            if acquiredAt (heap w eb) + 100000000 < now
            then w\<lparr>logged := logged w @ [Warn_Held (tag (heap w eb)) (since (acquiredAt (heap w eb)))]\<rparr>
            else w)"

definition poolMonitor_iter :: "time \<Rightarrow> (time \<Rightarrow> int) \<Rightarrow> world \<Rightarrow> monitor_next outcome" where
  "poolMonitor_iter now since w =
     (case Lock w of
        None \<Rightarrow> Blocks OnLock w
      | Some w1 \<Rightarrow>
          if count (pool_obj w1) = 0
          then Returns Exit ((Unlock w1)\<lparr>logged := logged w1 @ [Debug_Exiting]\<rparr>)
          else Returns Sleep (Unlock (poolMonitor_scan now since (buffersInUse (pool_obj w1)) w1)))"

section \<open>Callers\<close>

text \<open>
  A caller holds the addresses that \<open>Acquire\<close> has returned to it and those of \<open>Buffer\<close>
  values it declared itself (which have no pool); the fields of \<open>Buffer\<close> other than the
  embedded \<open>bytes.Buffer\<close> are unexported. \<open>Op_Bytes\<close> stands for any use of the methods of
  \<open>bytes.Buffer\<close> on a held buffer (\<open>Write\<close>, \<open>Grow\<close>, \<open>Truncate\<close> and the others) and names the
  contents and capacity they leave. \<open>Op_Monitor\<close> is one pass of the watchdog that \<open>NewPool\<close>
  started with \<open>go p.poolMonitor()\<close>; a sequence may hold passes after the watchdog has
  returned, which only adds sequences. Each call runs to its end before the next one
  starts, and a sequence stops at the first call that does not return.
\<close>

definition with_bytes :: "nat \<Rightarrow> bytes_Buffer \<Rightarrow> world \<Rightarrow> world" where
  "with_bytes eb bb w = w\<lparr>heap := (heap w)(eb := (heap w eb)\<lparr>bytesBuffer := bb\<rparr>)\<rparr>"

datatype op =
    Op_Acquire string time
  | Op_Release nat
  | Op_Bytes nat bytes_Buffer
  | Op_BuffersAvailable
  | Op_Monitor time "time \<Rightarrow> int"
  | Op_Free

fun exec :: "op \<Rightarrow> nat set \<times> world \<Rightarrow> (nat set \<times> world) option" where
  "exec (Op_Acquire tg now) (K, w) =
     (case Acquire PoolRef tg now w of
        Returns r w' \<Rightarrow> Some (case r of None \<Rightarrow> K | Some eb \<Rightarrow> insert eb K, w')
      | _ \<Rightarrow> None)"
| "exec (Op_Release eb) (K, w) =
     (if eb \<in> K then (case Release (Some eb) w of Returns _ w' \<Rightarrow> Some (K, w') | _ \<Rightarrow> None)
      else None)"
| "exec (Op_Bytes eb bb) (K, w) =
     (if eb \<in> K then Some (K, with_bytes eb bb w) else None)"
| "exec Op_BuffersAvailable (K, w) =
     (case BuffersAvailable PoolRef w of Returns _ w' \<Rightarrow> Some (K, w') | _ \<Rightarrow> None)"
| "exec (Op_Monitor now since) (K, w) =
     (case poolMonitor_iter now since w of Returns _ w' \<Rightarrow> Some (K, w') | _ \<Rightarrow> None)"
| "exec Op_Free (K, w) =
     (case Free PoolRef w of Returns _ w' \<Rightarrow> Some (K, w') | _ \<Rightarrow> None)"

fun run :: "op list \<Rightarrow> nat set \<times> world \<Rightarrow> (nat set \<times> world) option" where
  "run [] s = Some s"
| "run (x # xs) s = (case exec x s of None \<Rightarrow> None | Some s' \<Rightarrow> run xs s')"

text \<open>
  The world before \<open>NewPool\<close>: \<open>n\<close> buffers declared by the caller at the addresses below
  \<open>n\<close>, every \<open>Buffer\<close> and the \<open>Pool\<close> object at their zero values, nothing logged.
\<close>

definition fresh_world :: "nat \<Rightarrow> world" where
  "fresh_world n = \<lparr>pool_obj = zero_Pool, heap = (\<lambda>_. zero_Buffer), allocated = n, logged = []\<rparr>"

section \<open>Derived notions\<close>

text \<open>
  The buffers that occupy a slot of \<open>buffersInUse\<close>, in slot order; a buffer is leased
  when it occupies a slot.
\<close>

fun occupied :: "buf_ptr list \<Rightarrow> nat list" where
  "occupied [] = []"
| "occupied (None # s) = occupied s"
| "occupied (Some eb # s) = eb # occupied s"

definition leased :: "world \<Rightarrow> nat \<Rightarrow> bool" where
  "leased w eb = (Some eb \<in> set (buffersInUse (pool_obj w)))"

text \<open>The index that the loop of \<open>Acquire\<close> stops at: the lowest empty slot.\<close>

definition first_nil :: "buf_ptr list \<Rightarrow> nat" where
  "first_nil u = length (takeWhile (\<lambda>s. s \<noteq> None) u)"

text \<open>
  The bookkeeping that links the channel, the slots and the buffers. It does not mention
  \<open>count\<close>, so it also describes a pool that \<open>Free\<close> is draining.
\<close>

definition lease_inv :: "world \<Rightarrow> bool" where
  "lease_inv w =
     (\<not> lock (pool_obj w) \<and>
      length (queue (buffersAvailable (pool_obj w))) + length (occupied (buffersInUse (pool_obj w)))
        \<le> chan_cap (buffersAvailable (pool_obj w)) \<and>
      distinct (queue (buffersAvailable (pool_obj w)) @ occupied (buffersInUse (pool_obj w))) \<and>
      (\<forall>i\<in>{..<length (buffersInUse (pool_obj w))}.
         case buffersInUse (pool_obj w) ! i of
           None \<Rightarrow> True
         | Some eb \<Rightarrow> pool (heap w eb) = PoolRef \<and> index (heap w eb) = int i) \<and>
      (\<forall>eb\<in>set (queue (buffersAvailable (pool_obj w))).
         pool (heap w eb) = PoolRef \<and> tag (heap w eb) = []))"

text \<open>The state of a valid pool between two calls.\<close>

definition pool_inv :: "world \<Rightarrow> bool" where
  "pool_inv w =
     (lease_inv w \<and> 0 < count (pool_obj w) \<and> 0 < size_p (pool_obj w) \<and>
      length (buffersInUse (pool_obj w)) = nat (count (pool_obj w)) \<and>
      chan_cap (buffersAvailable (pool_obj w)) = nat (count (pool_obj w)) \<and>
      length (queue (buffersAvailable (pool_obj w))) + length (occupied (buffersInUse (pool_obj w)))
        = nat (count (pool_obj w)))"

text \<open>
  What callers hold: a buffer without pool, a leased buffer, or a buffer that went back
  to the channel through \<open>Release\<close>.
\<close>

definition held_ok :: "nat set \<Rightarrow> world \<Rightarrow> bool" where
  "held_ok K w =
     (\<forall>eb\<in>K. pool (heap w eb) = PoolNil \<or> leased w eb \<or>
        (eb \<in> set (queue (buffersAvailable (pool_obj w))) \<and> index (heap w eb) = - 1))"

definition caller_inv :: "nat set \<times> world \<Rightarrow> bool" where
  "caller_inv s = (pool_inv (snd s) \<and> held_ok (fst s) (snd s))"

text \<open>The state that \<open>Release\<close> leaves when it runs to its end.\<close>

definition released :: "nat \<Rightarrow> world \<Rightarrow> world" where
  "released eb w =
     w\<lparr>logged := logged w @
          (if origSize (heap w eb) < Cap (bytesBuffer (heap w eb))
           then [Warn_Allocated (tag (heap w eb)) (Cap (bytesBuffer (heap w eb))) (size_p (pool_obj w))]
           else []),
       heap := (heap w)(eb := (heap w eb)
          \<lparr>origSize := max (origSize (heap w eb)) (Cap (bytesBuffer (heap w eb))),
           index := - 1, tag := [], bytesBuffer := Reset (bytesBuffer (heap w eb))\<rparr>),
       pool_obj := (pool_obj w)
          \<lparr>lock := False,
           buffersInUse := (buffersInUse (pool_obj w))[nat (index (heap w eb)) := None],
           buffersAvailable := (buffersAvailable (pool_obj w))
              \<lparr>queue := queue (buffersAvailable (pool_obj w)) @ [eb]\<rparr>\<rparr>\<rparr>"

text \<open>The state that \<open>Acquire\<close> leaves when it takes the head of the channel.\<close>

definition acquired :: "string \<Rightarrow> time \<Rightarrow> world \<Rightarrow> world" where
  "acquired tg now w =
     w\<lparr>pool_obj := (pool_obj w)
          \<lparr>lock := False,
           buffersAvailable := (buffersAvailable (pool_obj w))\<lparr>queue := tl (queue (buffersAvailable (pool_obj w)))\<rparr>,
           buffersInUse := (buffersInUse (pool_obj w))
              [first_nil (buffersInUse (pool_obj w)) := Some (hd (queue (buffersAvailable (pool_obj w))))]\<rparr>,
       heap := (heap w)(hd (queue (buffersAvailable (pool_obj w))) :=
          (heap w (hd (queue (buffersAvailable (pool_obj w)))))
          \<lparr>index := int (first_nil (buffersInUse (pool_obj w))), tag := tg, acquiredAt := now\<rparr>)\<rparr>"

text \<open>The \<open>Buffer\<close> and \<open>Pool\<close> values that \<open>NewPool\<close> builds, and the state after its loop.\<close>

definition pooled_Buffer :: "int \<Rightarrow> nat \<Rightarrow> Buffer" where
  "pooled_Buffer sz grown = \<lparr>bytesBuffer = \<lparr>content = [], capacity = grown\<rparr>, pool = PoolRef, index = 0,
     origSize = sz, acquiredAt = 0, tag = []\<rparr>"

definition new_Pool :: "int \<Rightarrow> int \<Rightarrow> Pool" where
  "new_Pool cnt sz = \<lparr>size_p = sz, count = cnt, lock = False,
     buffersAvailable = \<lparr>chan_cap = nat cnt, queue = []\<rparr>,
     buffersInUse = replicate (nat cnt) None\<rparr>"

definition pooled :: "int \<Rightarrow> int \<Rightarrow> nat \<Rightarrow> world \<Rightarrow> world" where
  "pooled n sz grown w =
     w\<lparr>heap := (\<lambda>r. if allocated w \<le> r \<and> r < allocated w + nat n then pooled_Buffer sz grown else heap w r),
       allocated := allocated w + nat n,
       pool_obj := (pool_obj w)\<lparr>buffersAvailable := (buffersAvailable (pool_obj w))
          \<lparr>queue := queue (buffersAvailable (pool_obj w)) @ [allocated w ..< allocated w + nat n]\<rparr>\<rparr>\<rparr>"

text \<open>
  The two effects of \<open>Free\<close> before it discards the slots: \<open>count\<close> set to 0, and the first
  \<open>k\<close> handles taken from the channel.
\<close>

definition signalled :: "world \<Rightarrow> world" where
  "signalled w = w\<lparr>pool_obj := (pool_obj w)\<lparr>count := 0\<rparr>\<rparr>"

definition drained :: "nat \<Rightarrow> world \<Rightarrow> world" where
  "drained k w = w\<lparr>pool_obj := (pool_obj w)\<lparr>buffersAvailable :=
     (buffersAvailable (pool_obj w))\<lparr>queue := drop k (queue (buffersAvailable (pool_obj w)))\<rparr>\<rparr>\<rparr>"

text \<open>
  A record kept beside a sequence of calls, not part of the program: the tag passed to
  each \<open>Acquire\<close>, filed under the buffer that the call returned, and removed when a \<open>Release\<close>
  of that buffer returns. \<open>lease_tags ops s m\<close> is the record after the calls \<open>ops\<close> from the
  state \<open>s\<close>, starting from the record \<open>m\<close>; \<open>tags_inv\<close> says that the record and the \<open>tag\<close>
  fields agree.
\<close>

fun note_tag :: "op \<Rightarrow> nat set \<times> world \<Rightarrow> (nat \<rightharpoonup> string) \<Rightarrow> (nat \<rightharpoonup> string)" where
  "note_tag (Op_Acquire tg now) (K, w) m =
     (case Acquire PoolRef tg now w of
        Returns r _ \<Rightarrow> (case r of None \<Rightarrow> m | Some eb \<Rightarrow> m(eb \<mapsto> tg))
      | _ \<Rightarrow> m)"
| "note_tag (Op_Release eb) (K, w) m = (if returns (Release (Some eb) w) then m(eb := None) else m)"
| "note_tag (Op_Bytes eb bb) (K, w) m = m"
| "note_tag Op_BuffersAvailable (K, w) m = m"
| "note_tag (Op_Monitor now since) (K, w) m = m"
| "note_tag Op_Free (K, w) m = m"

fun lease_tags :: "op list \<Rightarrow> nat set \<times> world \<Rightarrow> (nat \<rightharpoonup> string) \<Rightarrow> (nat \<rightharpoonup> string)" where
  "lease_tags [] s m = m"
| "lease_tags (x # xs) s m =
     (case exec x s of None \<Rightarrow> m | Some s' \<Rightarrow> lease_tags xs s' (note_tag x s m))"

definition tags_inv :: "(nat \<rightharpoonup> string) \<Rightarrow> world \<Rightarrow> bool" where
  "tags_inv m w =
     (\<forall>eb. (leased w eb \<longrightarrow> m eb = Some (tag (heap w eb))) \<and>
           (\<not> leased w eb \<longrightarrow> m eb = None \<and> tag (heap w eb) = []))"


section \<open>A worked example\<close>

text \<open>
  A pool of two buffers of 10 bytes whose \<open>Grow\<close> gave 16 bytes, built by a caller that
  declared one \<open>Buffer\<close> of its own (address 0; the pool's buffers are at 1 and 2), and a
  sequence of calls on it.
\<close>

definition example_pool :: world where
  "example_pool = state_of (NewPool 2 10 16 (fresh_world 1))"

definition example_ops :: "op list" where
  "example_ops =
     [Op_Acquire ''a'' 5, Op_Bytes 1 \<lparr>content = [1, 2, 3], capacity = 32\<rparr>, Op_Acquire ''b'' 6,
      Op_Release 1, Op_Acquire ''c'' 7, Op_Monitor 200000000 (\<lambda>t. 200000001 - t),
      Op_BuffersAvailable, Op_Release 0]"

definition example_state :: "nat set \<times> world" where
  "example_state = the (run example_ops ({..<1}, example_pool))"

text \<open>Both buffers of the example pool acquired, and then released in the other order.\<close>

definition example_leases :: "nat set \<times> world" where
  "example_leases = the (run (map (\<lambda>(tg, now). Op_Acquire tg now) [(''a'', 5), (''b'', 6)]) ({..<1}, example_pool))"

definition example_returned :: "nat set \<times> world" where
  "example_returned = the (run (map Op_Release [2, 1]) example_leases)"

text \<open>
  The example pool after \<open>Acquire("")\<close>, and the state of the example after one more
  \<open>Release\<close>, with one buffer leased and one back in the channel.
\<close>

definition example_untagged :: world where
  "example_untagged = state_of (Acquire PoolRef [] 5 example_pool)"

definition example_mixed :: "nat set \<times> world" where
  "example_mixed = the (run (example_ops @ [Op_Release 2]) ({..<1}, example_pool))"


section \<open>Slots and the channel\<close>

lemma set_occupied: "set (occupied u) = {eb. Some eb \<in> set u}"
  by (induction u rule: occupied.induct) auto

lemma length_occupied: "length (occupied u) + length (filter (\<lambda>s. s = None) u) = length u"
  by (induction u rule: occupied.induct) auto

lemma length_occupied_filter: "length (occupied u) = length (filter (\<lambda>s. s \<noteq> None) u)"
  by (induction u rule: occupied.induct) auto

lemma fold_count_nil:
  "fold (\<lambda>b i. if b = None then i + 1 else i) u (n::int) = n + int (length (filter (\<lambda>s. s = None) u))"
  by (induction u arbitrary: n) auto

lemma occupied_append: "occupied (u @ v) = occupied u @ occupied v"
  by (induction u rule: occupied.induct) auto

lemma occupied_replicate: "occupied (replicate n None) = []"
  by (induction n) auto

lemma occupied_upd_Some:
  assumes "i < length u" "u ! i = None"
  shows "occupied (u[i := Some eb]) = occupied (take i u) @ eb # occupied (drop (Suc i) u)"
    and "occupied u = occupied (take i u) @ occupied (drop (Suc i) u)"
proof -
  have u: "u = take i u @ None # drop (Suc i) u"
    using assms by (metis id_take_nth_drop)
  have "u[i := Some eb] = take i u @ Some eb # drop (Suc i) u"
    using assms by (simp add: upd_conv_take_nth_drop)
  then show "occupied (u[i := Some eb]) = occupied (take i u) @ eb # occupied (drop (Suc i) u)"
    by (simp add: occupied_append)
  have "occupied u = occupied (take i u @ None # drop (Suc i) u)"
    using u by simp
  then show "occupied u = occupied (take i u) @ occupied (drop (Suc i) u)"
    by (simp add: occupied_append)
qed

lemma occupied_upd_None:
  assumes "i < length u" "u ! i = Some eb"
  shows "occupied (u[i := None]) = occupied (take i u) @ occupied (drop (Suc i) u)"
    and "occupied u = occupied (take i u) @ eb # occupied (drop (Suc i) u)"
proof -
  have u: "u = take i u @ Some eb # drop (Suc i) u"
    using assms by (metis id_take_nth_drop)
  have "u[i := None] = take i u @ None # drop (Suc i) u"
    using assms by (simp add: upd_conv_take_nth_drop)
  then show "occupied (u[i := None]) = occupied (take i u) @ occupied (drop (Suc i) u)"
    by (simp add: occupied_append)
  have "occupied u = occupied (take i u @ Some eb # drop (Suc i) u)"
    using u by simp
  then show "occupied u = occupied (take i u) @ eb # occupied (drop (Suc i) u)"
    by (simp add: occupied_append)
qed

lemma first_nil_props:
  assumes "None \<in> set u"
  shows "first_nil u < length u" "u ! first_nil u = None" "\<forall>k < first_nil u. u ! k \<noteq> None"
proof -
  show l: "first_nil u < length u"
  proof (rule ccontr)
    assume "\<not> first_nil u < length u"
    then have "length (takeWhile (\<lambda>s. s \<noteq> None) u) = length u"
      using length_takeWhile_le[of "\<lambda>s. s \<noteq> None" u] by (simp add: first_nil_def)
    then have "takeWhile (\<lambda>s. s \<noteq> None) u = u"
      using takeWhile_eq_take[of "\<lambda>s. s \<noteq> None" u] by simp
    then have "\<forall>x\<in>set u. x \<noteq> None"
      by (simp add: takeWhile_eq_all_conv)
    with assms show False by blast
  qed
  show "u ! first_nil u = None"
    using nth_length_takeWhile[of "\<lambda>s. s \<noteq> None" u] l by (simp add: first_nil_def)
  show "\<forall>k < first_nil u. u ! k \<noteq> None"
    unfolding first_nil_def
    using takeWhile_nth nth_mem set_takeWhileD by (metis (mono_tags, lifting))
qed

lemma unlocked_id: "\<not> lock (pool_obj w) \<Longrightarrow> w\<lparr>pool_obj := (pool_obj w)\<lparr>lock := False\<rparr>\<rparr> = w"
  by (cases w, cases "pool_obj w") simp

lemma leased_nth:
  "leased w eb \<longleftrightarrow> (\<exists>i < length (buffersInUse (pool_obj w)). buffersInUse (pool_obj w) ! i = Some eb)"
  unfolding leased_def by (auto simp: in_set_conv_nth)

lemma leased_occupied: "leased w eb \<longleftrightarrow> eb \<in> set (occupied (buffersInUse (pool_obj w)))"
  by (simp add: leased_def set_occupied)

lemma pool_inv_lease: "pool_inv w \<Longrightarrow> lease_inv w"
  by (simp add: pool_inv_def)

lemma lease_inv_slot:
  assumes "lease_inv w" "i < length (buffersInUse (pool_obj w))" "buffersInUse (pool_obj w) ! i = Some eb"
  shows "pool (heap w eb) = PoolRef" "index (heap w eb) = int i"
  using assms unfolding lease_inv_def by (auto split: option.splits)

lemma lease_inv_slot_unique:
  assumes "lease_inv w" "i < length (buffersInUse (pool_obj w))" "buffersInUse (pool_obj w) ! i = Some eb"
    "j < length (buffersInUse (pool_obj w))" "buffersInUse (pool_obj w) ! j = Some eb"
  shows "i = j"
  using lease_inv_slot(2)[OF assms(1,2,3)] lease_inv_slot(2)[OF assms(1,4,5)] by simp

lemma lease_inv_leased:
  assumes "lease_inv w" "leased w eb"
  shows "pool (heap w eb) = PoolRef"
    and "0 \<le> index (heap w eb)"
    and "nat (index (heap w eb)) < length (buffersInUse (pool_obj w))"
    and "buffersInUse (pool_obj w) ! nat (index (heap w eb)) = Some eb"
    and "length (queue (buffersAvailable (pool_obj w))) < chan_cap (buffersAvailable (pool_obj w))"
    and "eb \<notin> set (queue (buffersAvailable (pool_obj w)))"
proof -
  from assms(2) obtain i where i: "i < length (buffersInUse (pool_obj w))" "buffersInUse (pool_obj w) ! i = Some eb"
    by (auto simp: leased_nth)
  from lease_inv_slot[OF assms(1) i] show "pool (heap w eb) = PoolRef" "0 \<le> index (heap w eb)"
    "nat (index (heap w eb)) < length (buffersInUse (pool_obj w))"
    "buffersInUse (pool_obj w) ! nat (index (heap w eb)) = Some eb"
    using i by auto
  have occ: "eb \<in> set (occupied (buffersInUse (pool_obj w)))"
    using assms(2) by (simp add: leased_occupied)
  then have "0 < length (occupied (buffersInUse (pool_obj w)))"
    by (cases "occupied (buffersInUse (pool_obj w))") auto
  then show "length (queue (buffersAvailable (pool_obj w))) < chan_cap (buffersAvailable (pool_obj w))"
    using assms(1) unfolding lease_inv_def by linarith
  show "eb \<notin> set (queue (buffersAvailable (pool_obj w)))"
    using assms(1) occ unfolding lease_inv_def by auto
qed

lemma pool_inv_free_slot:
  assumes "pool_inv w" "queue (buffersAvailable (pool_obj w)) \<noteq> []"
  shows "None \<in> set (buffersInUse (pool_obj w))"
proof -
  have "length (occupied (buffersInUse (pool_obj w))) < length (buffersInUse (pool_obj w))"
    using assms unfolding pool_inv_def by (cases "queue (buffersAvailable (pool_obj w))") auto
  then have "0 < length (filter (\<lambda>s. s = None) (buffersInUse (pool_obj w)))"
    using length_occupied[of "buffersInUse (pool_obj w)"] by linarith
  then obtain x where "x \<in> set (filter (\<lambda>s. s = None) (buffersInUse (pool_obj w)))"
    by (cases "filter (\<lambda>s. s = None) (buffersInUse (pool_obj w))") auto
  then show ?thesis by auto
qed

lemma lease_inv_pool_inv:
  assumes "lease_inv w'" "pool_inv w"
    "count (pool_obj w') = count (pool_obj w)" "size_p (pool_obj w') = size_p (pool_obj w)"
    "chan_cap (buffersAvailable (pool_obj w')) = chan_cap (buffersAvailable (pool_obj w))"
    "length (buffersInUse (pool_obj w')) = length (buffersInUse (pool_obj w))"
    "length (queue (buffersAvailable (pool_obj w'))) + length (occupied (buffersInUse (pool_obj w')))
       = length (queue (buffersAvailable (pool_obj w))) + length (occupied (buffersInUse (pool_obj w)))"
  shows "pool_inv w'"
  using assms by (simp add: pool_inv_def)

lemma held_ok_queue:
  assumes "lease_inv w" "held_ok K w" "eb \<in> K" "eb \<in> set (queue (buffersAvailable (pool_obj w)))"
  shows "index (heap w eb) = - 1"
proof -
  have "pool (heap w eb) = PoolRef"
    using assms(1,4) by (simp add: lease_inv_def)
  moreover have "\<not> leased w eb"
    using lease_inv_leased(6)[OF assms(1)] assms(4) by blast
  ultimately show ?thesis
    using assms(2,3) unfolding held_ok_def by auto
qed

lemma pool_inv_cong:
  "pool_obj w' = pool_obj w \<Longrightarrow>
   (\<forall>r. pool (heap w' r) = pool (heap w r) \<and> index (heap w' r) = index (heap w r)
      \<and> tag (heap w' r) = tag (heap w r)) \<Longrightarrow> pool_inv w' = pool_inv w"
  by (simp add: pool_inv_def lease_inv_def cong: option.case_cong)

lemma held_ok_cong:
  "pool_obj w' = pool_obj w \<Longrightarrow>
   (\<forall>r. pool (heap w' r) = pool (heap w r) \<and> index (heap w' r) = index (heap w r))
     \<Longrightarrow> held_ok K w' = held_ok K w"
  by (simp add: held_ok_def leased_def)

lemma pool_inv_bytes: "pool_inv (with_bytes eb bb w) = pool_inv w"
  by (rule pool_inv_cong) (auto simp: with_bytes_def)

lemma leased_bytes: "leased (with_bytes eb bb w) e = leased w e"
  by (simp add: leased_def with_bytes_def)

section \<open>\<open>Release\<close>\<close>

lemma Release_leased:
  assumes "lease_inv w" "leased w eb"
  shows "Release (Some eb) w = Returns () (released eb w)"
proof -
  note f = lease_inv_leased[OF assms]
  have nl: "\<not> lock (pool_obj w)" using assms(1) by (simp add: lease_inv_def)
  show ?thesis
    using f nl
    by (simp add: Release_def released_def Lock_def Unlock_def chan_send_def Let_def max_def)
qed

lemma released_frame:
  "count (pool_obj (released eb w)) = count (pool_obj w)"
  "size_p (pool_obj (released eb w)) = size_p (pool_obj w)"
  "chan_cap (buffersAvailable (pool_obj (released eb w))) = chan_cap (buffersAvailable (pool_obj w))"
  "length (buffersInUse (pool_obj (released eb w))) = length (buffersInUse (pool_obj w))"
  "queue (buffersAvailable (pool_obj (released eb w))) = queue (buffersAvailable (pool_obj w)) @ [eb]"
  by (simp_all add: released_def)

lemma released_lease_inv:
  assumes inv: "lease_inv w" and l: "leased w eb"
  shows "lease_inv (released eb w)"
proof -
  let ?u = "buffersInUse (pool_obj w)"
  let ?q = "queue (buffersAvailable (pool_obj w))"
  let ?i = "nat (index (heap w eb))"
  note f = lease_inv_leased[OF inv l]
  have occ: "occupied (?u[?i := None]) = occupied (take ?i ?u) @ occupied (drop (Suc ?i) ?u)"
       "occupied ?u = occupied (take ?i ?u) @ eb # occupied (drop (Suc ?i) ?u)"
    using occupied_upd_None[OF f(3) f(4)] by auto
  have len: "length (?q @ [eb]) + length (occupied (?u[?i := None])) \<le> chan_cap (buffersAvailable (pool_obj w))"
    using inv occ unfolding lease_inv_def by simp
  have dist: "distinct ((?q @ [eb]) @ occupied (?u[?i := None]))"
    using inv occ unfolding lease_inv_def by auto
  have slots: "\<forall>j\<in>{..<length ?u}. case ?u[?i := None] ! j of None \<Rightarrow> True
      | Some e \<Rightarrow> pool (heap (released eb w) e) = PoolRef \<and> index (heap (released eb w) e) = int j"
  proof
    fix j assume "j \<in> {..<length ?u}"
    then have j: "j < length ?u" by simp
    show "case ?u[?i := None] ! j of None \<Rightarrow> True
      | Some e \<Rightarrow> pool (heap (released eb w) e) = PoolRef \<and> index (heap (released eb w) e) = int j"
    proof (cases "j = ?i")
      case True
      then show ?thesis using j by simp
    next
      case False
      show ?thesis
      proof (cases "?u ! j")
        case None
        then show ?thesis using False j by simp
      next
        case (Some e)
        have "e \<noteq> eb"
          using lease_inv_slot_unique[OF inv j _ f(3) f(4)] Some False by auto
        then show ?thesis
          using False j Some lease_inv_slot[OF inv j Some] by (simp add: released_def)
      qed
    qed
  qed
  have qs: "\<forall>e\<in>set (?q @ [eb]). pool (heap (released eb w) e) = PoolRef \<and> tag (heap (released eb w) e) = []"
    using inv f(1) unfolding lease_inv_def by (auto simp: released_def)
  show ?thesis
    unfolding lease_inv_def
    using inv len dist slots qs
    by (simp add: released_def lease_inv_def)
qed

lemma released_occupied:
  assumes inv: "lease_inv w" and l: "leased w eb"
  shows "set (occupied (buffersInUse (pool_obj (released eb w)))) = set (occupied (buffersInUse (pool_obj w))) - {eb}"
    and "Suc (length (occupied (buffersInUse (pool_obj (released eb w))))) = length (occupied (buffersInUse (pool_obj w)))"
proof -
  let ?u = "buffersInUse (pool_obj w)"
  let ?i = "nat (index (heap w eb))"
  note f = lease_inv_leased[OF inv l]
  have occ: "occupied (?u[?i := None]) = occupied (take ?i ?u) @ occupied (drop (Suc ?i) ?u)"
       "occupied ?u = occupied (take ?i ?u) @ eb # occupied (drop (Suc ?i) ?u)"
    using occupied_upd_None[OF f(3) f(4)] by auto
  have "distinct (occupied ?u)" using inv unfolding lease_inv_def by simp
  then have "set (occupied (?u[?i := None])) = set (occupied ?u) - {eb}"
    using occ by auto
  then show "set (occupied (buffersInUse (pool_obj (released eb w)))) = set (occupied ?u) - {eb}"
    by (simp add: released_def)
  show "Suc (length (occupied (buffersInUse (pool_obj (released eb w))))) = length (occupied ?u)"
    using occ by (simp add: released_def)
qed

lemma released_leased:
  assumes inv: "lease_inv w" and l: "leased w eb"
  shows "leased (released eb w) e \<longleftrightarrow> leased w e \<and> e \<noteq> eb"
  using released_occupied(1)[OF inv l] by (auto simp: leased_occupied)

lemma released_pool_inv:
  assumes inv: "pool_inv w" and l: "leased w eb"
  shows "pool_inv (released eb w)"
proof -
  have li: "lease_inv w" using inv by (rule pool_inv_lease)
  have "length (queue (buffersAvailable (pool_obj (released eb w)))) +
        length (occupied (buffersInUse (pool_obj (released eb w)))) = nat (count (pool_obj w))"
    using released_occupied(2)[OF li l] inv by (simp add: pool_inv_def released_def)
  then show ?thesis
    using released_lease_inv[OF li l] inv by (simp add: pool_inv_def released_def)
qed

lemma released_held_ok:
  assumes inv: "lease_inv w" and l: "leased w eb" and h: "held_ok K w"
  shows "held_ok K (released eb w)"
  unfolding held_ok_def
proof
  fix e assume e: "e \<in> K"
  show "pool (heap (released eb w) e) = PoolNil \<or> leased (released eb w) e \<or>
        e \<in> set (queue (buffersAvailable (pool_obj (released eb w)))) \<and> index (heap (released eb w) e) = - 1"
  proof (cases "e = eb")
    case True
    then show ?thesis by (simp add: released_def)
  next
    case False
    then show ?thesis
      using h e released_leased[OF inv l, of e] unfolding held_ok_def
      by (auto simp: released_def)
  qed
qed

lemma Release_count: "count (pool_obj (state_of (Release ebp w))) = count (pool_obj w)"
  by (auto simp: Release_def Lock_def Unlock_def chan_send_def Let_def split: option.splits)

lemma Release_negative_index:
  assumes "pool (heap w eb) \<noteq> PoolNil" "index (heap w eb) < 0"
  shows "\<not> returns (Release (Some eb) w)"
  using assms by (auto simp: Release_def Lock_def Let_def split: option.splits)

lemma Release_other:
  "e \<noteq> eb \<Longrightarrow> heap (state_of (Release (Some e) w)) eb = heap w eb"
  by (auto simp: Release_def Lock_def Unlock_def chan_send_def Let_def split: option.splits)

lemma Release_quiet:
  "Cap (bytesBuffer (heap w eb)) \<le> origSize (heap w eb) \<Longrightarrow> logged (state_of (Release (Some eb) w)) = logged w"
  by (auto simp: Release_def Lock_def Unlock_def chan_send_def Let_def split: option.splits)

lemma Release_panics_iff:
  assumes "pool (heap w eb) \<noteq> PoolNil" "\<not> lock (pool_obj w)"
  shows "panics (Release (Some eb) w) \<longleftrightarrow>
         \<not> (0 \<le> index (heap w eb) \<and> index (heap w eb) < int (length (buffersInUse (pool_obj w))))"
  using assms
  by (auto simp: Release_def Lock_def Unlock_def chan_send_def Let_def split: option.splits)

lemma Release_index_out_of_range:
  assumes "pool (heap w eb) \<noteq> PoolNil" "\<not> lock (pool_obj w)"
    "Cap (bytesBuffer (heap w eb)) \<le> origSize (heap w eb)"
    "index (heap w eb) < 0 \<or> int (length (buffersInUse (pool_obj w))) \<le> index (heap w eb)"
  shows "Release (Some eb) w = Panics (IndexOutOfRange (index (heap w eb)) (length (buffersInUse (pool_obj w))))
           (w\<lparr>pool_obj := (pool_obj w)\<lparr>lock := True\<rparr>\<rparr>)"
  using assms
  by (auto simp: Release_def Lock_def Let_def)

section \<open>\<open>Acquire\<close>\<close>

lemma Acquire_loop_found:
  assumes "j < length (buffersInUse (pool_obj w))" "buffersInUse (pool_obj w) ! j = None"
    "\<forall>k. i \<le> k \<and> k < j \<longrightarrow> buffersInUse (pool_obj w) ! k \<noteq> None" "i \<le> j"
  shows "Acquire_loop eb i w =
      w\<lparr>pool_obj := (pool_obj w)\<lparr>buffersInUse := (buffersInUse (pool_obj w))[j := Some eb]\<rparr>,
        heap := (heap w)(eb := (heap w eb)\<lparr>index := int j\<rparr>)\<rparr>"
  using assms
proof (induction "j - i" arbitrary: i)
  case 0
  then have "i = j" by simp
  then show ?case
    using "0.prems"(1,2) by (subst Acquire_loop.simps) simp
next
  case (Suc d)
  then have ij: "i < j" by simp
  with Suc.prems have "buffersInUse (pool_obj w) ! i \<noteq> None" by simp
  moreover have "Acquire_loop eb (Suc i) w =
      w\<lparr>pool_obj := (pool_obj w)\<lparr>buffersInUse := (buffersInUse (pool_obj w))[j := Some eb]\<rparr>,
        heap := (heap w)(eb := (heap w eb)\<lparr>index := int j\<rparr>)\<rparr>"
    using Suc.hyps(2) Suc.prems ij by (intro Suc.hyps(1)) auto
  ultimately show ?case
    using ij Suc.prems(1) by (subst Acquire_loop.simps) auto
qed

lemma Acquire_loop_frame:
  "size_p (pool_obj (Acquire_loop eb i w)) = size_p (pool_obj w) \<and>
   count (pool_obj (Acquire_loop eb i w)) = count (pool_obj w) \<and>
   lock (pool_obj (Acquire_loop eb i w)) = lock (pool_obj w) \<and>
   buffersAvailable (pool_obj (Acquire_loop eb i w)) = buffersAvailable (pool_obj w) \<and>
   logged (Acquire_loop eb i w) = logged w \<and> allocated (Acquire_loop eb i w) = allocated w \<and>
   (\<forall>r. origSize (heap (Acquire_loop eb i w) r) = origSize (heap w r) \<and>
        pool (heap (Acquire_loop eb i w) r) = pool (heap w r) \<and>
        bytesBuffer (heap (Acquire_loop eb i w) r) = bytesBuffer (heap w r))"
proof (induction eb i w rule: Acquire_loop.induct)
  case (1 eb i w)
  show ?case
  proof (cases "i < length (buffersInUse (pool_obj w)) \<and> buffersInUse (pool_obj w) ! i \<noteq> None")
    case True
    then show ?thesis using 1 by (subst (1 2 3 4 5 6 7 8 9) Acquire_loop.simps) simp
  next
    case False
    then show ?thesis by (subst (1 2 3 4 5 6 7 8 9) Acquire_loop.simps) auto
  qed
qed

lemma Acquire_nonempty:
  assumes inv: "pool_inv w" and q: "queue (buffersAvailable (pool_obj w)) \<noteq> []"
  shows "Acquire PoolRef tg now w = Returns (Some (hd (queue (buffersAvailable (pool_obj w))))) (acquired tg now w)"
proof -
  let ?u = "buffersInUse (pool_obj w)"
  let ?eb = "hd (queue (buffersAvailable (pool_obj w)))"
  let ?w2 = "w\<lparr>pool_obj := (pool_obj w)\<lparr>buffersAvailable :=
      (buffersAvailable (pool_obj w))\<lparr>queue := tl (queue (buffersAvailable (pool_obj w)))\<rparr>, lock := True\<rparr>\<rparr>"
  note n = first_nil_props[OF pool_inv_free_slot[OF inv q]]
  have valid: "size_p (pool_obj w) \<noteq> 0" "count (pool_obj w) \<noteq> 0" "\<not> lock (pool_obj w)"
    using inv by (auto simp: pool_inv_def lease_inv_def)
  have loop: "Acquire_loop ?eb 0 ?w2 =
      ?w2\<lparr>pool_obj := (pool_obj ?w2)\<lparr>buffersInUse := (buffersInUse (pool_obj ?w2))[first_nil ?u := Some ?eb]\<rparr>,
        heap := (heap ?w2)(?eb := (heap ?w2 ?eb)\<lparr>index := int (first_nil ?u)\<rparr>)\<rparr>"
    by (rule Acquire_loop_found) (use n in auto)
  obtain eb rest where qq: "queue (buffersAvailable (pool_obj w)) = eb # rest"
    using q by (cases "queue (buffersAvailable (pool_obj w))") auto
  show ?thesis
    using valid
    apply (simp add: Acquire_def chan_recv_def qq Lock_def Let_def)
    using loop apply (simp add: qq Unlock_def acquired_def)
    done
qed

lemma Acquire_empty:
  assumes "size_p (pool_obj w) \<noteq> 0" "count (pool_obj w) \<noteq> 0" "queue (buffersAvailable (pool_obj w)) = []"
  shows "Acquire PoolRef tg now w = Blocks OnReceive w"
  using assms by (simp add: Acquire_def chan_recv_def)

lemma Acquire_origSize:
  "origSize (heap (state_of (Acquire p tg now w)) r) = origSize (heap w r)"
  using Acquire_loop_frame
  by (auto simp: Acquire_def Lock_def Unlock_def chan_recv_def Let_def
       split: pool_ptr.splits option.splits list.splits)

lemma acquired_frame:
  "count (pool_obj (acquired tg now w)) = count (pool_obj w)"
  "size_p (pool_obj (acquired tg now w)) = size_p (pool_obj w)"
  "queue (buffersAvailable (pool_obj (acquired tg now w))) = tl (queue (buffersAvailable (pool_obj w)))"
  by (simp_all add: acquired_def)

lemma acquired_occupied:
  assumes inv: "pool_inv w" and q: "queue (buffersAvailable (pool_obj w)) \<noteq> []"
  shows "occupied (buffersInUse (pool_obj (acquired tg now w))) =
           occupied (take (first_nil (buffersInUse (pool_obj w))) (buffersInUse (pool_obj w))) @
           hd (queue (buffersAvailable (pool_obj w))) #
           occupied (drop (Suc (first_nil (buffersInUse (pool_obj w)))) (buffersInUse (pool_obj w)))"
    and "occupied (buffersInUse (pool_obj w)) =
           occupied (take (first_nil (buffersInUse (pool_obj w))) (buffersInUse (pool_obj w))) @
           occupied (drop (Suc (first_nil (buffersInUse (pool_obj w)))) (buffersInUse (pool_obj w)))"
proof -
  note n = first_nil_props[OF pool_inv_free_slot[OF inv q]]
  show "occupied (buffersInUse (pool_obj (acquired tg now w))) =
           occupied (take (first_nil (buffersInUse (pool_obj w))) (buffersInUse (pool_obj w))) @
           hd (queue (buffersAvailable (pool_obj w))) #
           occupied (drop (Suc (first_nil (buffersInUse (pool_obj w)))) (buffersInUse (pool_obj w)))"
    using occupied_upd_Some(1)[OF n(1) n(2)] by (simp add: acquired_def)
  show "occupied (buffersInUse (pool_obj w)) =
           occupied (take (first_nil (buffersInUse (pool_obj w))) (buffersInUse (pool_obj w))) @
           occupied (drop (Suc (first_nil (buffersInUse (pool_obj w)))) (buffersInUse (pool_obj w)))"
    using occupied_upd_Some(2)[OF n(1) n(2)] by simp
qed

lemma acquired_pool_inv:
  assumes inv: "pool_inv w" and q: "queue (buffersAvailable (pool_obj w)) \<noteq> []"
  shows "pool_inv (acquired tg now w)"
proof -
  let ?u = "buffersInUse (pool_obj w)"
  let ?q = "queue (buffersAvailable (pool_obj w))"
  let ?eb = "hd ?q"
  let ?j = "first_nil ?u"
  let ?w' = "acquired tg now w"
  have li: "lease_inv w" using inv by (rule pool_inv_lease)
  note n = first_nil_props[OF pool_inv_free_slot[OF inv q]]
  have qq: "?q = ?eb # tl ?q" using q by simp
  have occ: "occupied (?u[?j := Some ?eb]) = occupied (take ?j ?u) @ ?eb # occupied (drop (Suc ?j) ?u)"
       "occupied ?u = occupied (take ?j ?u) @ occupied (drop (Suc ?j) ?u)"
    using occupied_upd_Some[OF n(1) n(2)] by auto
  have d0: "distinct (?q @ occupied ?u)" and l0: "length ?q + length (occupied ?u) = nat (count (pool_obj w))"
    using inv unfolding pool_inv_def lease_inv_def by auto
  have len: "length (tl ?q) + length (occupied (?u[?j := Some ?eb])) = nat (count (pool_obj w))"
    using l0 occ q by (cases ?q) auto
  have d1: "distinct ((?eb # tl ?q) @ occupied (take ?j ?u) @ occupied (drop (Suc ?j) ?u))"
    using d0 occ(2) qq by metis
  have dist: "distinct (tl ?q @ occupied (?u[?j := Some ?eb]))"
    using d1 unfolding occ(1) by auto
  have ebq: "pool (heap w ?eb) = PoolRef"
    using li q unfolding lease_inv_def by (cases ?q) auto
  have notocc: "?eb \<notin> set (occupied ?u)"
    using d1 occ(2) by auto
  have slots: "\<forall>k\<in>{..<length ?u}. case ?u[?j := Some ?eb] ! k of None \<Rightarrow> True
      | Some e \<Rightarrow> pool (heap ?w' e) = PoolRef \<and> index (heap ?w' e) = int k"
  proof
    fix k assume "k \<in> {..<length ?u}"
    then have k: "k < length ?u" by simp
    show "case ?u[?j := Some ?eb] ! k of None \<Rightarrow> True
      | Some e \<Rightarrow> pool (heap ?w' e) = PoolRef \<and> index (heap ?w' e) = int k"
    proof (cases "k = ?j")
      case True
      then show ?thesis using k ebq by (simp add: acquired_def)
    next
      case False
      show ?thesis
      proof (cases "?u ! k")
        case None
        then show ?thesis using False k by simp
      next
        case (Some e)
        have "e \<in> set (occupied ?u)"
          using Some k by (auto simp: set_occupied in_set_conv_nth)
        then have "e \<noteq> ?eb" using notocc by auto
        then show ?thesis
          using False k Some lease_inv_slot[OF li k Some] by (simp add: acquired_def)
      qed
    qed
  qed
  have "?eb \<notin> set (tl ?q)" using d1 by auto
  moreover have "\<forall>e\<in>set ?q. pool (heap w e) = PoolRef \<and> tag (heap w e) = []"
    using li unfolding lease_inv_def by auto
  ultimately have qs: "\<forall>e\<in>set (tl ?q). pool (heap ?w' e) = PoolRef \<and> tag (heap ?w' e) = []"
    using q by (auto simp: acquired_def dest: list.set_sel(2))
  show ?thesis
    unfolding pool_inv_def lease_inv_def
    using inv len dist slots qs
    by (simp add: acquired_def pool_inv_def lease_inv_def)
qed

lemma acquired_leased:
  assumes inv: "pool_inv w" and q: "queue (buffersAvailable (pool_obj w)) \<noteq> []"
  shows "leased (acquired tg now w) e \<longleftrightarrow> leased w e \<or> e = hd (queue (buffersAvailable (pool_obj w)))"
proof -
  have "set (occupied (buffersInUse (pool_obj (acquired tg now w)))) =
        insert (hd (queue (buffersAvailable (pool_obj w)))) (set (occupied (buffersInUse (pool_obj w))))"
    using acquired_occupied(1)[OF inv q, of tg now] acquired_occupied(2)[OF inv q]
    by (metis Un_insert_right list.simps(15) set_append)
  then show ?thesis by (auto simp: leased_occupied)
qed

lemma acquired_held_ok:
  assumes inv: "pool_inv w" and q: "queue (buffersAvailable (pool_obj w)) \<noteq> []" and h: "held_ok K w"
  shows "held_ok (insert (hd (queue (buffersAvailable (pool_obj w)))) K) (acquired tg now w)"
  unfolding held_ok_def
proof
  let ?eb = "hd (queue (buffersAvailable (pool_obj w)))"
  let ?w' = "acquired tg now w"
  fix e assume e: "e \<in> insert ?eb K"
  show "pool (heap ?w' e) = PoolNil \<or> leased ?w' e \<or>
        e \<in> set (queue (buffersAvailable (pool_obj ?w'))) \<and> index (heap ?w' e) = - 1"
  proof (cases "e = ?eb")
    case True
    then show ?thesis using acquired_leased[OF inv q] by simp
  next
    case False
    then have "e \<in> K" using e by simp
    then have "pool (heap w e) = PoolNil \<or> leased w e \<or>
        e \<in> set (queue (buffersAvailable (pool_obj w))) \<and> index (heap w e) = - 1"
      using h unfolding held_ok_def by blast
    moreover have "e \<in> set (queue (buffersAvailable (pool_obj w))) \<Longrightarrow> e \<in> set (tl (queue (buffersAvailable (pool_obj w))))"
      using False q by (cases "queue (buffersAvailable (pool_obj w))") auto
    ultimately show ?thesis
      using False acquired_leased[OF inv q, where e = e] by (auto simp: acquired_def)
  qed
qed

section \<open>\<open>BuffersAvailable\<close> and the watchdog\<close>

lemma BuffersAvailable_unlocked:
  assumes "size_p (pool_obj w) \<noteq> 0" "count (pool_obj w) \<noteq> 0" "\<not> lock (pool_obj w)"
  shows "BuffersAvailable PoolRef w =
     Returns (int (length (filter (\<lambda>s. s = None) (buffersInUse (pool_obj w))))) w"
  using assms unlocked_id[OF assms(3)]
  by (simp add: BuffersAvailable_def Lock_def Unlock_def fold_count_nil)

lemma BuffersAvailable_pool_inv:
  assumes "pool_inv w"
  shows "BuffersAvailable PoolRef w = Returns (int (length (queue (buffersAvailable (pool_obj w))))) w"
proof -
  have "length (filter (\<lambda>s. s = None) (buffersInUse (pool_obj w))) = length (queue (buffersAvailable (pool_obj w)))"
    using assms length_occupied[of "buffersInUse (pool_obj w)"] by (simp add: pool_inv_def)
  moreover have "size_p (pool_obj w) \<noteq> 0" "count (pool_obj w) \<noteq> 0" "\<not> lock (pool_obj w)"
    using assms by (auto simp: pool_inv_def lease_inv_def)
  ultimately show ?thesis by (simp add: BuffersAvailable_unlocked)
qed

lemma BuffersAvailable_heap: "heap (state_of (BuffersAvailable p w)) = heap w"
  by (auto simp: BuffersAvailable_def Lock_def Unlock_def Let_def split: pool_ptr.splits)

lemma poolMonitor_scan_frame:
  "pool_obj (poolMonitor_scan now since s w) = pool_obj w \<and>
   heap (poolMonitor_scan now since s w) = heap w \<and>
   allocated (poolMonitor_scan now since s w) = allocated w"
  by (induction s arbitrary: w) (auto split: option.splits)

lemma poolMonitor_scan_logged:
  "logged (poolMonitor_scan now since s w) =
     logged w @ map (\<lambda>eb. Warn_Held (tag (heap w eb)) (since (acquiredAt (heap w eb))))
                  (filter (\<lambda>eb. acquiredAt (heap w eb) + 100000000 < now) (occupied s))"
proof (induction s arbitrary: w)
  case Nil
  then show ?case by simp
next
  case (Cons a s)
  show ?case
  proof (cases a)
    case None
    then show ?thesis using Cons.IH[of w] by simp
  next
    case (Some eb)
    then show ?thesis
      using Cons.IH[of w]
        Cons.IH[of "w\<lparr>logged := logged w @ [Warn_Held (tag (heap w eb)) (since (acquiredAt (heap w eb)))]\<rparr>"]
      by simp
  qed
qed

lemma poolMonitor_scan_eq:
  "poolMonitor_scan now since s w =
     w\<lparr>logged := logged w @ map (\<lambda>eb. Warn_Held (tag (heap w eb)) (since (acquiredAt (heap w eb))))
                  (filter (\<lambda>eb. acquiredAt (heap w eb) + 100000000 < now) (occupied s))\<rparr>"
  using poolMonitor_scan_frame[of now since s w] poolMonitor_scan_logged[of now since s w]
  by (intro world.equality) simp_all

lemma poolMonitor_iter_frame:
  "pool_obj (state_of (poolMonitor_iter now since w)) = pool_obj w \<and>
   heap (state_of (poolMonitor_iter now since w)) = heap w \<and>
   allocated (state_of (poolMonitor_iter now since w)) = allocated w"
proof (cases "lock (pool_obj w)")
  case True
  then show ?thesis by (simp add: poolMonitor_iter_def Lock_def)
next
  case False
  then have p: "(pool_obj w)\<lparr>lock := False\<rparr> = pool_obj w"
    by (cases "pool_obj w") simp
  show ?thesis
    using False p
    by (auto simp: poolMonitor_iter_def Lock_def Unlock_def poolMonitor_scan_frame)
qed

section \<open>\<open>NewPool\<close> establishes the invariant\<close>

lemma pooled_0: "n \<le> 0 \<Longrightarrow> pooled n sz grown w = w"
  by (cases w, cases "pool_obj w", cases "buffersAvailable (pool_obj w)") (auto simp: pooled_def fun_eq_iff)

lemma NewPool_loop_run:
  "length (queue (buffersAvailable (pool_obj w))) + nat (cnt - i) \<le> chan_cap (buffersAvailable (pool_obj w))
   \<Longrightarrow> NewPool_loop i cnt sz grown w = Returns () (pooled (cnt - i) sz grown w)"
proof (induction i cnt sz grown w rule: NewPool_loop.induct)
  case (1 i cnt sz grown w)
  show ?case
  proof (cases "i < cnt")
    case False
    then show ?thesis by (subst NewPool_loop.simps) (simp add: pooled_0)
  next
    case True
    let ?r = "allocated w"
    let ?w1 = "w\<lparr>heap := (heap w)(?r := pooled_Buffer sz grown), allocated := Suc ?r\<rparr>"
    let ?ch = "(buffersAvailable (pool_obj w))\<lparr>queue := queue (buffersAvailable (pool_obj w)) @ [?r]\<rparr>"
    let ?w2 = "?w1\<lparr>pool_obj := (pool_obj ?w1)\<lparr>buffersAvailable := ?ch\<rparr>\<rparr>"
    have room: "length (queue (buffersAvailable (pool_obj w))) < chan_cap (buffersAvailable (pool_obj w))"
      using True "1.prems" by linarith
    have send: "chan_send ?r (buffersAvailable (pool_obj ?w1)) = Some ?ch"
      using room by (simp add: chan_send_def)
    have n: "nat (cnt - i) = Suc (nat (cnt - (i + 1)))"
      using True by linarith
    have "NewPool_loop (i + 1) cnt sz grown ?w2 = Returns () (pooled (cnt - (i + 1)) sz grown ?w2)"
      using "1.IH"[OF True refl refl refl, of ?ch] send "1.prems" n
      by (simp add: pooled_Buffer_def)
    moreover have "pooled (cnt - (i + 1)) sz grown ?w2 = pooled (cnt - i) sz grown w"
      unfolding pooled_def n by (auto simp: upt_conv_Cons fun_eq_iff)
    ultimately show ?thesis
      using True send by (subst NewPool_loop.simps) (simp add: Let_def pooled_Buffer_def)
  qed
qed

lemma NewPool_valid:
  assumes "0 < cnt" "0 < sz"
  shows "NewPool cnt sz grown w = Returns PoolRef (pooled cnt sz grown (w\<lparr>pool_obj := new_Pool cnt sz\<rparr>))"
proof -
  have "NewPool_loop 0 cnt sz grown (w\<lparr>pool_obj := new_Pool cnt sz\<rparr>)
      = Returns () (pooled (cnt - 0) sz grown (w\<lparr>pool_obj := new_Pool cnt sz\<rparr>))"
    by (rule NewPool_loop_run) (simp add: new_Pool_def)
  then show ?thesis
    using assms by (simp add: NewPool_def new_Pool_def)
qed

lemma NewPool_invalid:
  assumes "cnt \<le> 0 \<or> sz \<le> 0"
  shows "NewPool cnt sz grown w = Returns PoolNil (w\<lparr>logged := logged w @ [Error_InvalidArguments]\<rparr>)"
  using assms by (simp add: NewPool_def)

lemma NewPool_pool_inv:
  assumes "0 < cnt" "0 < sz"
  shows "pool_inv (pooled cnt sz grown (w\<lparr>pool_obj := new_Pool cnt sz\<rparr>))"
  using assms
  by (auto simp: pool_inv_def lease_inv_def pooled_def new_Pool_def occupied_replicate pooled_Buffer_def)

lemma NewPool_held_ok:
  assumes "\<forall>r\<in>K. r < allocated w \<and> pool (heap w r) = PoolNil"
  shows "held_ok K (pooled cnt sz grown (w\<lparr>pool_obj := new_Pool cnt sz\<rparr>))"
  using assms by (auto simp: held_ok_def pooled_def)

lemma NewPool_caller_inv:
  assumes "NewPool cnt sz grown (fresh_world n) = Returns PoolRef w"
  shows "caller_inv ({..<n}, w)"
proof -
  have v: "0 < cnt" "0 < sz"
    using assms by (auto simp: NewPool_def split: if_splits)
  have w: "w = pooled cnt sz grown ((fresh_world n)\<lparr>pool_obj := new_Pool cnt sz\<rparr>)"
    using assms NewPool_valid[OF v, of grown "fresh_world n"] by simp
  have "held_ok {..<n} w"
    unfolding w by (rule NewPool_held_ok) (simp add: fresh_world_def zero_Buffer_def)
  then show ?thesis
    using NewPool_pool_inv[OF v, of grown "fresh_world n"] w by (simp add: caller_inv_def)
qed

section \<open>\<open>Free\<close> and its loop\<close>

lemma Free_loop_frame:
  "size_p (pool_obj (state_of (Free_loop i cnt w))) = size_p (pool_obj w) \<and>
   count (pool_obj (state_of (Free_loop i cnt w))) = count (pool_obj w) \<and>
   lock (pool_obj (state_of (Free_loop i cnt w))) = lock (pool_obj w) \<and>
   buffersInUse (pool_obj (state_of (Free_loop i cnt w))) = buffersInUse (pool_obj w) \<and>
   chan_cap (buffersAvailable (pool_obj (state_of (Free_loop i cnt w)))) = chan_cap (buffersAvailable (pool_obj w)) \<and>
   heap (state_of (Free_loop i cnt w)) = heap w \<and>
   logged (state_of (Free_loop i cnt w)) = logged w \<and>
   allocated (state_of (Free_loop i cnt w)) = allocated w"
proof (induction i cnt w rule: Free_loop.induct)
  case (1 i cnt w)
  show ?case
  proof (cases "i < cnt")
    case False
    then show ?thesis by (subst (1 2 3 4 5 6 7 8) Free_loop.simps) simp
  next
    case True
    show ?thesis
    proof (cases "chan_recv (buffersAvailable (pool_obj w))")
      case None
      then show ?thesis using True by (subst (1 2 3 4 5 6 7 8) Free_loop.simps) simp
    next
      case (Some a)
      obtain eb ch where a: "a = (eb, ch)" by (cases a)
      have "chan_cap ch = chan_cap (buffersAvailable (pool_obj w))"
        using Some a by (auto simp: chan_recv_def split: list.splits)
      then show ?thesis
        using True Some a "1.IH"[OF True Some a[symmetric]]
        by (subst (1 2 3 4 5 6 7 8) Free_loop.simps) simp
    qed
  qed
qed

lemma Free_count:
  assumes "Free PoolRef w = Returns () w'"
  shows "(size_p (pool_obj w) = 0 \<or> count (pool_obj w) = 0) \<and> w' = w \<or> count (pool_obj w') = 0"
proof (cases "size_p (pool_obj w) = 0 \<or> count (pool_obj w) = 0")
  case True
  then show ?thesis using assms by (auto simp: Free_def)
next
  case False
  then obtain w2 where s: "Free_signal w = Some w2"
    using assms by (auto simp: Free_def split: option.splits)
  then have c2: "count (pool_obj w2) = 0"
    by (auto simp: Free_signal_def Lock_def Unlock_def split: if_splits)
  obtain w3 where l: "Free_loop 0 (count (pool_obj w)) w2 = Returns () w3"
    and w': "w' = w3\<lparr>pool_obj := (pool_obj w3)\<lparr>buffersInUse := []\<rparr>\<rparr>"
    using assms False s by (auto simp: Free_def split: outcome.splits)
  have "count (pool_obj w3) = 0"
    using Free_loop_frame[of 0 "count (pool_obj w)" w2] l c2 by simp
  then show ?thesis using w' by simp
qed

lemma Free_heap: "heap (state_of (Free p w)) = heap w"
proof (cases "p = PoolNil \<or> size_p (pool_obj w) = 0 \<or> count (pool_obj w) = 0 \<or> lock (pool_obj w)")
  case True
  then show ?thesis
    by (auto simp: Free_def Free_signal_def Lock_def split: pool_ptr.splits)
next
  case False
  let ?w2 = "Unlock (w\<lparr>pool_obj := (pool_obj w)\<lparr>lock := True, count := 0\<rparr>\<rparr>)"
  have s: "Free_signal w = Some ?w2"
    using False by (simp add: Free_signal_def Lock_def)
  have h: "heap (state_of (Free_loop 0 (count (pool_obj w)) ?w2)) = heap w"
    using Free_loop_frame[of 0 "count (pool_obj w)" ?w2] by (simp add: Unlock_def)
  show ?thesis
    using False s h
    by (cases "Free_loop 0 (count (pool_obj w)) ?w2") (auto simp: Free_def split: pool_ptr.splits)
qed

lemma drained_0: "drained 0 w = w"
  by (cases w, cases "pool_obj w", cases "buffersAvailable (pool_obj w)") (simp add: drained_def)

lemma Free_loop_eq:
  "Free_loop i cnt w =
     (if nat (cnt - i) \<le> length (queue (buffersAvailable (pool_obj w)))
      then Returns () (drained (nat (cnt - i)) w)
      else Blocks OnReceive (drained (length (queue (buffersAvailable (pool_obj w)))) w))"
proof (induction i cnt w rule: Free_loop.induct)
  case (1 i cnt w)
  show ?case
  proof (cases "i < cnt")
    case False
    then show ?thesis by (subst Free_loop.simps) (simp add: drained_0)
  next
    case True
    show ?thesis
    proof (cases "queue (buffersAvailable (pool_obj w))")
      case Nil
      then show ?thesis
        using True by (subst Free_loop.simps) (simp add: chan_recv_def drained_0)
    next
      case (Cons eb rest)
      let ?ch = "(buffersAvailable (pool_obj w))\<lparr>queue := rest\<rparr>"
      let ?w1 = "w\<lparr>pool_obj := (pool_obj w)\<lparr>buffersAvailable := ?ch\<rparr>\<rparr>"
      have r: "chan_recv (buffersAvailable (pool_obj w)) = Some (eb, ?ch)"
        using Cons by (simp add: chan_recv_def)
      have n: "nat (cnt - i) = Suc (nat (cnt - (i + 1)))"
        using True by linarith
      have d: "drained k ?w1 = drained (Suc k) w" for k
        using Cons by (simp add: drained_def)
      have "Free_loop i cnt w = Free_loop (i + 1) cnt ?w1"
        using True r by (subst Free_loop.simps) simp
      also have "\<dots> = (if nat (cnt - (i + 1)) \<le> length rest
           then Returns () (drained (nat (cnt - (i + 1))) ?w1)
           else Blocks OnReceive (drained (length rest) ?w1))"
        using "1.IH"[OF True r refl] by simp
      finally show ?thesis
        using Cons by (simp add: n d)
    qed
  qed
qed

lemma Free_signal_unlocked:
  "\<not> lock (pool_obj w) \<Longrightarrow> Free_signal w = Some (signalled w)"
  by (cases w, cases "pool_obj w") (simp add: Free_signal_def Lock_def Unlock_def signalled_def)

lemma lease_inv_blocked:
  assumes "lease_inv w"
  shows "lease_inv (drained (length (queue (buffersAvailable (pool_obj w)))) (signalled w))"
  using assms by (simp add: lease_inv_def drained_def signalled_def cong: option.case_cong)

lemma blocked_frame:
  "buffersInUse (pool_obj (drained k (signalled w))) = buffersInUse (pool_obj w)"
  "count (pool_obj (drained k (signalled w))) = 0"
  "queue (buffersAvailable (pool_obj (drained k (signalled w)))) = drop k (queue (buffersAvailable (pool_obj w)))"
  "leased (drained k (signalled w)) e = leased w e"
  by (simp_all add: drained_def signalled_def leased_def)

section \<open>Sequences of calls\<close>

lemma exec_count0:
  assumes "count (pool_obj w) = 0" "exec x (K, w) = Some (K', w')"
  shows "count (pool_obj w') = 0"
proof (cases x)
  case (Op_Acquire tg now)
  then show ?thesis using assms by (auto simp: Acquire_def)
next
  case (Op_Release eb)
  then show ?thesis
    using assms Release_count[of "Some eb" w] by (auto split: if_splits outcome.splits)
next
  case (Op_Bytes eb bb)
  then show ?thesis using assms by (auto simp: with_bytes_def split: if_splits)
next
  case Op_BuffersAvailable
  then show ?thesis using assms by (auto simp: BuffersAvailable_def)
next
  case (Op_Monitor now since)
  then show ?thesis
    using assms poolMonitor_iter_frame[of now since w] by (auto split: outcome.splits)
next
  case Op_Free
  then show ?thesis using assms by (auto simp: Free_def)
qed

lemma exec_caller_inv:
  assumes inv: "caller_inv (K, w)" and ex: "exec x (K, w) = Some (K', w')"
    and c: "count (pool_obj w') \<noteq> 0"
  shows "caller_inv (K', w')"
proof -
  have pinv: "pool_inv w" and held: "held_ok K w"
    using inv by (auto simp: caller_inv_def)
  have li: "lease_inv w" using pinv by (rule pool_inv_lease)
  have valid: "size_p (pool_obj w) \<noteq> 0" "count (pool_obj w) \<noteq> 0" "\<not> lock (pool_obj w)"
    using pinv by (auto simp: pool_inv_def lease_inv_def)
  show ?thesis
  proof (cases x)
    case (Op_Acquire tg now)
    show ?thesis
    proof (cases "queue (buffersAvailable (pool_obj w))")
      case Nil
      then have "Acquire PoolRef tg now w = Blocks OnReceive w"
        using valid by (simp add: Acquire_empty)
      then show ?thesis using ex Op_Acquire by simp
    next
      case (Cons eb rest)
      then have q: "queue (buffersAvailable (pool_obj w)) \<noteq> []" by simp
      have "K' = insert (hd (queue (buffersAvailable (pool_obj w)))) K" "w' = acquired tg now w"
        using ex Op_Acquire Acquire_nonempty[OF pinv q, of tg now] by auto
      then show ?thesis
        using acquired_pool_inv[OF pinv q] acquired_held_ok[OF pinv q held]
        by (simp add: caller_inv_def)
    qed
  next
    case (Op_Release eb)
    then have eb: "eb \<in> K" and r: "Release (Some eb) w = Returns () w'" and K': "K' = K"
      using ex by (auto split: if_splits outcome.splits)
    from held eb consider "pool (heap w eb) = PoolNil" | "leased w eb"
      | "pool (heap w eb) \<noteq> PoolNil" "index (heap w eb) = - 1"
      unfolding held_ok_def by blast
    then show ?thesis
    proof cases
      case 1
      then have "w' = w" using r by (simp add: Release_def)
      then show ?thesis using inv K' by simp
    next
      case 2
      then have "w' = released eb w"
        using r Release_leased[OF li 2] by simp
      then show ?thesis
        using released_pool_inv[OF pinv 2] released_held_ok[OF li 2 held] K'
        by (simp add: caller_inv_def)
    next
      case 3
      then have "\<not> returns (Release (Some eb) w)"
        by (intro Release_negative_index) auto
      then show ?thesis using r by simp
    qed
  next
    case (Op_Bytes eb bb)
    then have w': "w' = with_bytes eb bb w" and K': "K' = K"
      using ex by (auto split: if_splits)
    have "held_ok K w' = held_ok K w"
      by (rule held_ok_cong) (auto simp: w' with_bytes_def)
    then show ?thesis using inv K' by (simp add: caller_inv_def w' pool_inv_bytes)
  next
    case Op_BuffersAvailable
    then show ?thesis
      using ex inv BuffersAvailable_unlocked[OF valid] by auto
  next
    case (Op_Monitor now since)
    then obtain d where m: "poolMonitor_iter now since w = Returns d w'" and K': "K' = K"
      using ex by (auto split: outcome.splits)
    have f: "pool_obj w' = pool_obj w" "heap w' = heap w"
      using poolMonitor_iter_frame[of now since w] m by auto
    have "pool_inv w' = pool_inv w"
      by (rule pool_inv_cong) (auto simp: f)
    moreover have "held_ok K w' = held_ok K w"
      by (rule held_ok_cong) (auto simp: f)
    ultimately show ?thesis using inv K' by (simp add: caller_inv_def)
  next
    case Op_Free
    then have "Free PoolRef w = Returns () w'"
      using ex by (auto split: outcome.splits)
    from Free_count[OF this] show ?thesis using valid c by auto
  qed
qed

lemma run_count0:
  "count (pool_obj (snd s)) = 0 \<Longrightarrow> run xs s = Some s' \<Longrightarrow> count (pool_obj (snd s')) = 0"
proof (induction xs arbitrary: s)
  case Nil
  then show ?case by simp
next
  case (Cons x xs)
  then obtain s1 where s1: "exec x s = Some s1" "run xs s1 = Some s'"
    by (auto split: option.splits)
  have "count (pool_obj (snd s1)) = 0"
    using exec_count0[of "snd s" x "fst s" "fst s1" "snd s1"] Cons.prems(1) s1(1) by simp
  then show ?case using Cons.IH s1(2) by blast
qed

lemma run_caller_inv:
  "caller_inv s \<Longrightarrow> run xs s = Some s' \<Longrightarrow> count (pool_obj (snd s')) \<noteq> 0 \<Longrightarrow> caller_inv s'"
proof (induction xs arbitrary: s)
  case Nil
  then show ?case by simp
next
  case (Cons x xs)
  then obtain s1 where s1: "exec x s = Some s1" "run xs s1 = Some s'"
    by (auto split: option.splits)
  have "count (pool_obj (snd s1)) \<noteq> 0"
    using run_count0[OF _ s1(2)] Cons.prems(3) by blast
  then have "caller_inv s1"
    using exec_caller_inv[of "fst s" "snd s" x "fst s1" "snd s1"] Cons.prems(1) s1(1) by simp
  then show ?case using Cons.IH s1(2) Cons.prems(3) by blast
qed

lemma reachable_pool_inv:
  assumes "NewPool cnt sz grown (fresh_world n) = Returns PoolRef w0"
    and "run ops ({..<n}, w0) = Some (K, w)"
    and "count (pool_obj w) \<noteq> 0"
  shows "pool_inv w"
  using run_caller_inv[OF NewPool_caller_inv[OF assms(1)] assms(2)] assms(3)
  by (simp add: caller_inv_def)

lemma exec_origSize:
  assumes "exec x (K, w) = Some (K', w')" "x \<noteq> Op_Release eb"
  shows "origSize (heap w' eb) = origSize (heap w eb)"
proof (cases x)
  case (Op_Acquire tg now)
  then show ?thesis
    using assms Acquire_origSize[of PoolRef tg now w eb] by (auto split: outcome.splits)
next
  case (Op_Release e)
  then show ?thesis
    using assms Release_other[of e eb w] by (auto split: if_splits outcome.splits)
next
  case (Op_Bytes e bb)
  then show ?thesis using assms by (auto simp: with_bytes_def split: if_splits)
next
  case Op_BuffersAvailable
  then show ?thesis
    using assms BuffersAvailable_heap[of PoolRef w] by (auto split: outcome.splits)
next
  case (Op_Monitor now since)
  then show ?thesis
    using assms poolMonitor_iter_frame[of now since w] by (auto split: outcome.splits)
next
  case Op_Free
  then show ?thesis
    using assms Free_heap[of PoolRef w] by (auto split: outcome.splits)
qed

lemma run_origSize:
  "run xs s = Some s' \<Longrightarrow> Op_Release eb \<notin> set xs \<Longrightarrow> origSize (heap (snd s') eb) = origSize (heap (snd s) eb)"
proof (induction xs arbitrary: s)
  case Nil
  then show ?case by simp
next
  case (Cons x xs)
  then obtain s1 where s1: "exec x s = Some s1" "run xs s1 = Some s'"
    by (auto split: option.splits)
  have "x \<noteq> Op_Release eb" using Cons.prems(2) by auto
  then have "origSize (heap (snd s1) eb) = origSize (heap (snd s) eb)"
    using exec_origSize[of x "fst s" "snd s" "fst s1" "snd s1" eb] s1(1) by simp
  then show ?case using Cons.IH[OF s1(2)] Cons.prems(2) by simp
qed

lemma run_acquires:
  assumes "pool_inv w" "length args \<le> length (queue (buffersAvailable (pool_obj w)))"
  shows "\<exists>w'. run (map (\<lambda>(tg, now). Op_Acquire tg now) args) (K, w)
             = Some (K \<union> set (take (length args) (queue (buffersAvailable (pool_obj w)))), w')
         \<and> pool_inv w' \<and> count (pool_obj w') = count (pool_obj w)
         \<and> queue (buffersAvailable (pool_obj w')) = drop (length args) (queue (buffersAvailable (pool_obj w)))
         \<and> (\<forall>e. leased w' e \<longleftrightarrow> leased w e \<or> e \<in> set (take (length args) (queue (buffersAvailable (pool_obj w)))))"
  using assms
proof (induction args arbitrary: K w)
  case Nil
  then show ?case by simp
next
  case (Cons a args)
  obtain tg now where a: "a = (tg, now)" by (cases a)
  let ?q = "queue (buffersAvailable (pool_obj w))"
  have q: "?q \<noteq> []" using Cons.prems(2) by auto
  then obtain eb rest where qq: "?q = eb # rest" by (cases ?q) auto
  have acq: "Acquire PoolRef tg now w = Returns (Some eb) (acquired tg now w)"
    using Acquire_nonempty[OF Cons.prems(1) q, of tg now] qq by simp
  have inv': "pool_inv (acquired tg now w)"
    by (rule acquired_pool_inv[OF Cons.prems(1) q])
  have len': "length args \<le> length (queue (buffersAvailable (pool_obj (acquired tg now w))))"
    using Cons.prems(2) qq by (simp add: acquired_frame)
  from Cons.IH[OF inv' len', of "insert eb K"] obtain w' where w':
    "run (map (\<lambda>(tg, now). Op_Acquire tg now) args) (insert eb K, acquired tg now w)
       = Some (insert eb K \<union> set (take (length args) rest), w')"
    "pool_inv w'" "count (pool_obj w') = count (pool_obj w)"
    "queue (buffersAvailable (pool_obj w')) = drop (length args) rest"
    "\<forall>e. leased w' e \<longleftrightarrow> leased (acquired tg now w) e \<or> e \<in> set (take (length args) rest)"
    by (auto simp: acquired_frame qq)
  have l: "\<forall>e. leased w' e \<longleftrightarrow> leased w e \<or> e \<in> set (take (length (a # args)) ?q)"
    using w'(5) acquired_leased[OF Cons.prems(1) q, of tg now] qq by auto
  show ?case
    using w'(1,2,3,4) l
    by (intro exI[of _ w']) (simp add: a acq qq)
qed

lemma run_releases:
  assumes "lease_inv w" "distinct rs" "\<forall>e\<in>set rs. leased w e" "set rs \<subseteq> K"
  shows "\<exists>w'. run (map Op_Release rs) (K, w) = Some (K, w')
         \<and> lease_inv w'
         \<and> count (pool_obj w') = count (pool_obj w) \<and> size_p (pool_obj w') = size_p (pool_obj w)
         \<and> chan_cap (buffersAvailable (pool_obj w')) = chan_cap (buffersAvailable (pool_obj w))
         \<and> length (buffersInUse (pool_obj w')) = length (buffersInUse (pool_obj w))
         \<and> queue (buffersAvailable (pool_obj w')) = queue (buffersAvailable (pool_obj w)) @ rs
         \<and> length (occupied (buffersInUse (pool_obj w'))) + length rs = length (occupied (buffersInUse (pool_obj w)))
         \<and> (\<forall>e. leased w' e \<longleftrightarrow> leased w e \<and> e \<notin> set rs)"
  using assms
proof (induction rs arbitrary: w)
  case Nil
  then show ?case by simp
next
  case (Cons eb rs)
  have l: "leased w eb" using Cons.prems(3) by simp
  have rel: "Release (Some eb) w = Returns () (released eb w)"
    by (rule Release_leased[OF Cons.prems(1) l])
  have inv': "lease_inv (released eb w)"
    by (rule released_lease_inv[OF Cons.prems(1) l])
  have l': "\<forall>e\<in>set rs. leased (released eb w) e"
    using Cons.prems(2,3) released_leased[OF Cons.prems(1) l] by auto
  from Cons.IH[OF inv' _ l'] Cons.prems(2,4) obtain w' where w':
    "run (map Op_Release rs) (K, released eb w) = Some (K, w')"
    "lease_inv w'"
    "count (pool_obj w') = count (pool_obj w)" "size_p (pool_obj w') = size_p (pool_obj w)"
    "chan_cap (buffersAvailable (pool_obj w')) = chan_cap (buffersAvailable (pool_obj w))"
    "length (buffersInUse (pool_obj w')) = length (buffersInUse (pool_obj w))"
    "queue (buffersAvailable (pool_obj w')) = (queue (buffersAvailable (pool_obj w)) @ [eb]) @ rs"
    "length (occupied (buffersInUse (pool_obj w'))) + length rs = length (occupied (buffersInUse (pool_obj (released eb w))))"
    "\<forall>e. leased w' e \<longleftrightarrow> leased (released eb w) e \<and> e \<notin> set rs"
    by (auto simp: released_frame)
  have occ: "length (occupied (buffersInUse (pool_obj w'))) + length (eb # rs) = length (occupied (buffersInUse (pool_obj w)))"
    using w'(8) released_occupied(2)[OF Cons.prems(1) l] by simp
  have ls: "\<forall>e. leased w' e \<longleftrightarrow> leased w e \<and> e \<notin> set (eb # rs)"
    using w'(9) released_leased[OF Cons.prems(1) l] by auto
  show ?case
    using w'(1-7) occ ls Cons.prems(4)
    by (intro exI[of _ w']) (simp add: rel)
qed

section \<open>The tags of leased buffers\<close>

lemma tags_inv_cong:
  "(\<forall>e. leased w' e = leased w e) \<Longrightarrow> (\<forall>e. tag (heap w' e) = tag (heap w e)) \<Longrightarrow> tags_inv m w' = tags_inv m w"
  by (simp add: tags_inv_def)

lemma exec_tags_inv:
  assumes inv: "caller_inv (K, w)" and t: "tags_inv m w" and ex: "exec x (K, w) = Some (K', w')"
    and c: "count (pool_obj w') \<noteq> 0"
  shows "tags_inv (note_tag x (K, w) m) w'"
proof -
  have pinv: "pool_inv w" and held: "held_ok K w"
    using inv by (auto simp: caller_inv_def)
  have li: "lease_inv w" using pinv by (rule pool_inv_lease)
  have valid: "size_p (pool_obj w) \<noteq> 0" "count (pool_obj w) \<noteq> 0" "\<not> lock (pool_obj w)"
    using pinv by (auto simp: pool_inv_def lease_inv_def)
  show ?thesis
  proof (cases x)
    case (Op_Acquire tg now)
    show ?thesis
    proof (cases "queue (buffersAvailable (pool_obj w))")
      case Nil
      then have "Acquire PoolRef tg now w = Blocks OnReceive w"
        using valid by (simp add: Acquire_empty)
      then show ?thesis using ex Op_Acquire by simp
    next
      case (Cons eb rest)
      then have q: "queue (buffersAvailable (pool_obj w)) \<noteq> []" by simp
      have a: "Acquire PoolRef tg now w = Returns (Some eb) (acquired tg now w)"
        using Acquire_nonempty[OF pinv q, of tg now] Cons by simp
      have w': "w' = acquired tg now w"
        using ex Op_Acquire a by simp
      have n: "note_tag x (K, w) m = m(eb \<mapsto> tg)"
        using Op_Acquire a by simp
      have l: "\<And>e. leased (acquired tg now w) e \<longleftrightarrow> leased w e \<or> e = eb"
        using acquired_leased[OF pinv q, of tg now] Cons by simp
      have h: "tag (heap (acquired tg now w) eb) = tg"
          "\<And>e. e \<noteq> eb \<Longrightarrow> tag (heap (acquired tg now w) e) = tag (heap w e)"
        using Cons by (simp_all add: acquired_def)
      show ?thesis
        unfolding n w' tags_inv_def
      proof (intro allI conjI impI)
        fix e assume "leased (acquired tg now w) e"
        then show "(m(eb \<mapsto> tg)) e = Some (tag (heap (acquired tg now w) e))"
          using l[of e] h t by (cases "e = eb") (auto simp: tags_inv_def)
      next
        fix e assume "\<not> leased (acquired tg now w) e"
        then have "e \<noteq> eb" "\<not> leased w e" using l[of e] by auto
        then show "(m(eb \<mapsto> tg)) e = None" "tag (heap (acquired tg now w) e) = []"
          using h(2)[of e] t by (auto simp: tags_inv_def)
      qed
    qed
  next
    case (Op_Release eb)
    then have eb: "eb \<in> K" and r: "Release (Some eb) w = Returns () w'"
      using ex by (auto split: if_splits outcome.splits)
    have n: "note_tag x (K, w) m = m(eb := None)"
      using Op_Release r by simp
    from held eb consider "pool (heap w eb) = PoolNil" | "leased w eb"
      | "pool (heap w eb) \<noteq> PoolNil" "index (heap w eb) = - 1"
      unfolding held_ok_def by blast
    then show ?thesis
    proof cases
      case 1
      then have w': "w' = w" using r by (simp add: Release_def)
      have "\<not> leased w eb"
        using 1 lease_inv_leased(1)[OF li, of eb] by auto
      then have "m eb = None" using t by (simp add: tags_inv_def)
      then have "m(eb := None) = m" by (simp add: fun_upd_idem)
      then show ?thesis using t n w' by simp
    next
      case 2
      have w': "w' = released eb w"
        using r Release_leased[OF li 2] by simp
      have l: "\<And>e. leased (released eb w) e \<longleftrightarrow> leased w e \<and> e \<noteq> eb"
        using released_leased[OF li 2] by simp
      have h: "tag (heap (released eb w) eb) = []"
          "\<And>e. e \<noteq> eb \<Longrightarrow> tag (heap (released eb w) e) = tag (heap w e)"
        by (simp_all add: released_def)
      show ?thesis
        unfolding n w' tags_inv_def
      proof (intro allI conjI impI)
        fix e assume "leased (released eb w) e"
        then have "leased w e" "e \<noteq> eb" using l[of e] by auto
        then show "(m(eb := None)) e = Some (tag (heap (released eb w) e))"
          using h(2)[of e] t by (auto simp: tags_inv_def)
      next
        fix e assume a: "\<not> leased (released eb w) e"
        show "(m(eb := None)) e = None"
          using a l[of e] t by (cases "e = eb") (auto simp: tags_inv_def)
        show "tag (heap (released eb w) e) = []"
          using a l[of e] h t by (cases "e = eb") (auto simp: tags_inv_def)
      qed
    next
      case 3
      then have "\<not> returns (Release (Some eb) w)"
        by (intro Release_negative_index) auto
      then show ?thesis using r by simp
    qed
  next
    case (Op_Bytes eb bb)
    then have w': "w' = with_bytes eb bb w"
      using ex by (auto split: if_splits)
    have "tags_inv m w' = tags_inv m w"
      by (rule tags_inv_cong) (auto simp: w' leased_def with_bytes_def)
    then show ?thesis using t Op_Bytes by simp
  next
    case Op_BuffersAvailable
    then show ?thesis
      using ex t BuffersAvailable_unlocked[OF valid] by auto
  next
    case (Op_Monitor now since)
    then obtain d where mo: "poolMonitor_iter now since w = Returns d w'"
      using ex by (auto split: outcome.splits)
    have f: "pool_obj w' = pool_obj w" "heap w' = heap w"
      using poolMonitor_iter_frame[of now since w] mo by auto
    have "tags_inv m w' = tags_inv m w"
      by (rule tags_inv_cong) (auto simp: f leased_def)
    then show ?thesis using t Op_Monitor by simp
  next
    case Op_Free
    then have "Free PoolRef w = Returns () w'"
      using ex by (auto split: outcome.splits)
    from Free_count[OF this] show ?thesis using valid c by auto
  qed
qed

lemma run_tags_inv:
  "caller_inv s \<Longrightarrow> tags_inv m (snd s) \<Longrightarrow> run xs s = Some s' \<Longrightarrow> count (pool_obj (snd s')) \<noteq> 0
   \<Longrightarrow> tags_inv (lease_tags xs s m) (snd s')"
proof (induction xs arbitrary: s m)
  case Nil
  then show ?case by simp
next
  case (Cons x xs)
  then obtain s1 where s1: "exec x s = Some s1" "run xs s1 = Some s'"
    by (auto split: option.splits)
  have c1: "count (pool_obj (snd s1)) \<noteq> 0"
    using run_count0[OF _ s1(2)] Cons.prems(4) by blast
  have i1: "caller_inv s1"
    using exec_caller_inv[of "fst s" "snd s" x "fst s1" "snd s1"] Cons.prems(1) s1(1) c1 by simp
  have t1: "tags_inv (note_tag x s m) (snd s1)"
    using exec_tags_inv[of "fst s" "snd s" m x "fst s1" "snd s1"] Cons.prems(1,2) s1(1) c1 by simp
  show ?case
    using Cons.IH[OF i1 t1 s1(2) Cons.prems(4)] s1(1) by simp
qed

lemma NewPool_tags_inv:
  assumes "NewPool cnt sz grown (fresh_world n) = Returns PoolRef w"
  shows "tags_inv Map.empty w"
proof -
  have v: "0 < cnt" "0 < sz"
    using assms by (auto simp: NewPool_def split: if_splits)
  have w: "w = pooled cnt sz grown ((fresh_world n)\<lparr>pool_obj := new_Pool cnt sz\<rparr>)"
    using assms NewPool_valid[OF v, of grown "fresh_world n"] by simp
  show ?thesis
    unfolding w
    by (auto simp: tags_inv_def leased_def pooled_def new_Pool_def fresh_world_def pooled_Buffer_def zero_Buffer_def)
qed

lemma Acquire_keeps_leased_tag:
  assumes "pool_inv w" "leased w e"
  shows "tag (heap (state_of (Acquire PoolRef tg now w)) e) = tag (heap w e)"
proof (cases "queue (buffersAvailable (pool_obj w))")
  case Nil
  have "size_p (pool_obj w) \<noteq> 0" "count (pool_obj w) \<noteq> 0"
    using assms(1) by (auto simp: pool_inv_def)
  then show ?thesis using Nil by (simp add: Acquire_empty)
next
  case (Cons eb rest)
  then have q: "queue (buffersAvailable (pool_obj w)) \<noteq> []" by simp
  have "e \<noteq> eb"
    using lease_inv_leased(6)[OF pool_inv_lease[OF assms(1)] assms(2)] Cons by auto
  then show ?thesis
    using Acquire_nonempty[OF assms(1) q, of tg now] Cons by (simp add: acquired_def)
qed

section \<open>The worked example, evaluated\<close>

lemma Some_the_pair: "(case x of None \<Rightarrow> False | Some _ \<Rightarrow> True) \<Longrightarrow> x = Some (fst (the x), snd (the x))"
  by (cases x) auto

lemma example_pool_new: "NewPool 2 10 16 (fresh_world 1) = Returns PoolRef example_pool"
  by (simp add: example_pool_def NewPool_valid)

lemma example_pool_pool_inv: "pool_inv example_pool"
  using NewPool_caller_inv[OF example_pool_new] by (simp add: caller_inv_def)

lemma example_run: "run example_ops ({..<1}, example_pool) = Some (fst example_state, snd example_state)"
  unfolding example_state_def
  by (rule Some_the_pair) code_simp

lemma example_count: "count (pool_obj (snd example_state)) \<noteq> 0"
  by code_simp

lemma example_caller_inv: "caller_inv example_state"
proof -
  have "caller_inv (fst example_state, snd example_state)"
    using run_caller_inv[OF NewPool_caller_inv[OF example_pool_new] example_run] example_count by simp
  then show ?thesis by simp
qed

lemma example_pool_inv: "pool_inv (snd example_state)"
  using example_caller_inv by (simp add: caller_inv_def)

lemma example_leased: "leased (snd example_state) 1" "leased (snd example_state) 2"
  by code_simp+

lemma example_mixed_run:
  "run (example_ops @ [Op_Release 2]) ({..<1}, example_pool) = Some (fst example_mixed, snd example_mixed)"
  unfolding example_mixed_def
  by (rule Some_the_pair) code_simp


section \<open>The claims\<close>

text \<open>
  Where a statement below is about a valid pool, its hypothesis is \<open>pool_inv\<close>: by
  \<open>reachable_pool_inv\<close> it holds in every state that a pool built by \<open>NewPool\<close> reaches
  through a sequence of calls, as long as \<open>Free\<close> has not set \<open>count\<close> to 0.
\<close>

text \<open>
  C1. Pool state invariant. In every state that a valid pool reaches from \<open>NewPool\<close>
  through calls of \<open>Acquire\<close>, \<open>Release\<close>, \<open>BuffersAvailable\<close>, \<open>Free\<close>, passes of the watchdog
  and uses of the leased buffers, and in which the pool is still valid (\<open>count\<close> is not 0):
  the number of handles in the channel plus the number of non-empty slots equals \<open>count\<close>,
  no handle is both in the channel and in a slot, and two different leased buffers never
  hold the same slot index. The states are those between two calls: a call runs to its
  end before the next one starts.
\<close>

theorem pool_state_invariant:
  assumes "NewPool cnt sz grown (fresh_world n) = Returns PoolRef w0"
    and "run ops ({..<n}, w0) = Some (K, w)"
    and "count (pool_obj w) \<noteq> 0"
  shows "int (length (queue (buffersAvailable (pool_obj w)))) +
           int (length (filter (\<lambda>s. s \<noteq> None) (buffersInUse (pool_obj w)))) = count (pool_obj w)
       \<and> (\<forall>eb. \<not> (eb \<in> set (queue (buffersAvailable (pool_obj w))) \<and> leased w eb))
       \<and> (\<forall>a b. leased w a \<and> leased w b \<and> a \<noteq> b \<longrightarrow> index (heap w a) \<noteq> index (heap w b))"
proof -
  have "caller_inv (K, w)"
    using run_caller_inv[OF NewPool_caller_inv[OF assms(1)] assms(2)] assms(3) by simp
  then have inv: "pool_inv w" by (simp add: caller_inv_def)
  then have li: "lease_inv w" by (rule pool_inv_lease)
  have sum: "int (length (queue (buffersAvailable (pool_obj w)))) +
           int (length (filter (\<lambda>s. s \<noteq> None) (buffersInUse (pool_obj w)))) = count (pool_obj w)"
  proof -
    have "length (queue (buffersAvailable (pool_obj w))) + length (occupied (buffersInUse (pool_obj w)))
            = nat (count (pool_obj w))" and "0 < count (pool_obj w)"
      using inv by (simp_all add: pool_inv_def)
    then show ?thesis
      unfolding length_occupied_filter by linarith
  qed
  have disj: "\<forall>eb. \<not> (eb \<in> set (queue (buffersAvailable (pool_obj w))) \<and> leased w eb)"
    using lease_inv_leased(6)[OF li] by blast
  have slot: "\<forall>a b. leased w a \<and> leased w b \<and> a \<noteq> b \<longrightarrow> index (heap w a) \<noteq> index (heap w b)"
  proof (intro allI impI)
    fix a b assume ab: "leased w a \<and> leased w b \<and> a \<noteq> b"
    show "index (heap w a) \<noteq> index (heap w b)"
    proof
      assume "index (heap w a) = index (heap w b)"
      then have "Some a = Some b"
        using lease_inv_leased(4)[OF li, of a] lease_inv_leased(4)[OF li, of b] ab by simp
      then show False using ab by simp
    qed
  qed
  show ?thesis using sum disj slot by blast
qed

theorem pool_state_invariant_witness:
  "int (length (queue (buffersAvailable (pool_obj (snd example_state))))) +
     int (length (filter (\<lambda>s. s \<noteq> None) (buffersInUse (pool_obj (snd example_state)))))
     = count (pool_obj (snd example_state))
   \<and> leased (snd example_state) 1 \<and> leased (snd example_state) 2
   \<and> index (heap (snd example_state) 1) \<noteq> index (heap (snd example_state) 2)"
  using pool_state_invariant[OF example_pool_new example_run example_count] example_leased by auto

text \<open>
  C2. \<open>Release\<close> of a buffer that is leased from a valid pool returns, whatever the caller
  left in the buffer (\<open>bb\<close>): afterwards the content length is zero, the capacity is the
  one the caller left, the tag is empty, the slot that held the buffer is empty, the slot
  index of the buffer is \<open>-1\<close> and the handle is the last element of the channel.
\<close>

theorem Release_resets_buffer:
  assumes "pool_inv w" and "leased w eb"
  shows "returns (Release (Some eb) (with_bytes eb bb w))
    \<and> Len (bytesBuffer (heap (state_of (Release (Some eb) (with_bytes eb bb w))) eb)) = 0
    \<and> Cap (bytesBuffer (heap (state_of (Release (Some eb) (with_bytes eb bb w))) eb)) = Cap bb
    \<and> tag (heap (state_of (Release (Some eb) (with_bytes eb bb w))) eb) = []
    \<and> index (heap (state_of (Release (Some eb) (with_bytes eb bb w))) eb) = - 1
    \<and> buffersInUse (pool_obj w) ! nat (index (heap w eb)) = Some eb
    \<and> buffersInUse (pool_obj (state_of (Release (Some eb) (with_bytes eb bb w))))
        = (buffersInUse (pool_obj w))[nat (index (heap w eb)) := None]
    \<and> buffersInUse (pool_obj (state_of (Release (Some eb) (with_bytes eb bb w)))) ! nat (index (heap w eb)) = None
    \<and> \<not> leased (state_of (Release (Some eb) (with_bytes eb bb w))) eb
    \<and> queue (buffersAvailable (pool_obj (state_of (Release (Some eb) (with_bytes eb bb w)))))
        = queue (buffersAvailable (pool_obj w)) @ [eb]"
proof -
  let ?w1 = "with_bytes eb bb w"
  have li: "lease_inv ?w1"
    using assms(1) by (simp add: pool_inv_lease pool_inv_bytes)
  have l1: "leased ?w1 eb"
    using assms(2) by (simp add: leased_bytes)
  have r: "Release (Some eb) ?w1 = Returns () (released eb ?w1)"
    by (rule Release_leased[OF li l1])
  have slot: "buffersInUse (pool_obj w) ! nat (index (heap w eb)) = Some eb"
    and range: "nat (index (heap w eb)) < length (buffersInUse (pool_obj w))"
    using lease_inv_leased(3,4)[OF pool_inv_lease[OF assms(1)] assms(2)] by simp_all
  have nl: "\<not> leased (released eb ?w1) eb"
    using released_leased[OF li l1, of eb] by simp
  show ?thesis
    unfolding r using slot range nl
    by (simp add: released_def with_bytes_def Len_def Cap_def Reset_def)
qed

theorem Release_resets_buffer_witness:
  "pool_inv (snd example_state) \<and> leased (snd example_state) 1
   \<and> returns (Release (Some 1) (with_bytes 1 \<lparr>content = [7, 8, 9], capacity = 64\<rparr> (snd example_state)))
   \<and> Len (bytesBuffer (heap (state_of (Release (Some 1)
         (with_bytes 1 \<lparr>content = [7, 8, 9], capacity = 64\<rparr> (snd example_state)))) 1)) = 0
   \<and> Cap (bytesBuffer (heap (state_of (Release (Some 1)
         (with_bytes 1 \<lparr>content = [7, 8, 9], capacity = 64\<rparr> (snd example_state)))) 1)) = 64"
  using Release_resets_buffer[OF example_pool_inv example_leased(1), of "\<lparr>content = [7, 8, 9], capacity = 64\<rparr>"]
    example_pool_inv example_leased(1)
  by (simp add: Cap_def)

text \<open>
  C3. \<open>Release\<close> of a leased buffer writes the growth warning, with the tag, the capacity
  and the size of the pool, exactly when the capacity exceeds \<open>origSize\<close> (the high-water
  mark), and then sets \<open>origSize\<close> to the capacity. After any later calls other than a
  \<open>Release\<close> of this buffer, a \<open>Release\<close> of it at the same or a smaller capacity logs
  nothing.
\<close>

theorem Release_growth_warning:
  assumes "pool_inv w" and "leased w eb"
  shows "logged (state_of (Release (Some eb) w)) =
           logged w @ (if origSize (heap w eb) < Cap (bytesBuffer (heap w eb))
                       then [Warn_Allocated (tag (heap w eb)) (Cap (bytesBuffer (heap w eb))) (size_p (pool_obj w))]
                       else [])
    \<and> origSize (heap (state_of (Release (Some eb) w)) eb) =
           (if origSize (heap w eb) < Cap (bytesBuffer (heap w eb))
            then Cap (bytesBuffer (heap w eb)) else origSize (heap w eb))
    \<and> (\<forall>xs K K' w2.
          run xs (K, state_of (Release (Some eb) w)) = Some (K', w2) \<and> Op_Release eb \<notin> set xs \<and>
          Cap (bytesBuffer (heap w2 eb)) \<le> Cap (bytesBuffer (heap w eb))
          \<longrightarrow> logged (state_of (Release (Some eb) w2)) = logged w2)"
proof -
  have r: "Release (Some eb) w = Returns () (released eb w)"
    by (rule Release_leased[OF pool_inv_lease[OF assms(1)] assms(2)])
  have o: "origSize (heap (released eb w) eb) = max (origSize (heap w eb)) (Cap (bytesBuffer (heap w eb)))"
    by (simp add: released_def)
  have later: "\<forall>xs K K' w2.
          run xs (K, released eb w) = Some (K', w2) \<and> Op_Release eb \<notin> set xs \<and>
          Cap (bytesBuffer (heap w2 eb)) \<le> Cap (bytesBuffer (heap w eb))
          \<longrightarrow> logged (state_of (Release (Some eb) w2)) = logged w2"
  proof (intro allI impI)
    fix xs K K' w2
    assume a: "run xs (K, released eb w) = Some (K', w2) \<and> Op_Release eb \<notin> set xs \<and>
          Cap (bytesBuffer (heap w2 eb)) \<le> Cap (bytesBuffer (heap w eb))"
    then have "origSize (heap w2 eb) = origSize (heap (released eb w) eb)"
      using run_origSize[of xs "(K, released eb w)" "(K', w2)" eb] by simp
    then have "Cap (bytesBuffer (heap w2 eb)) \<le> origSize (heap w2 eb)"
      using a o by linarith
    then show "logged (state_of (Release (Some eb) w2)) = logged w2"
      by (rule Release_quiet)
  qed
  have s: "state_of (Release (Some eb) w) = released eb w"
    using r by simp
  have c1: "logged (released eb w) =
           logged w @ (if origSize (heap w eb) < Cap (bytesBuffer (heap w eb))
                       then [Warn_Allocated (tag (heap w eb)) (Cap (bytesBuffer (heap w eb))) (size_p (pool_obj w))]
                       else [])"
    by (simp add: released_def)
  have c2: "origSize (heap (released eb w) eb) =
           (if origSize (heap w eb) < Cap (bytesBuffer (heap w eb))
            then Cap (bytesBuffer (heap w eb)) else origSize (heap w eb))"
    by (simp add: released_def max_def)
  show ?thesis
    unfolding s using c1 c2 later by blast
qed

theorem Release_growth_warning_witness:
  "pool_inv (snd example_state) \<and> leased (snd example_state) 1
   \<and> logged (state_of (Release (Some 1) (with_bytes 1 \<lparr>content = [], capacity = 64\<rparr> (snd example_state))))
       = logged (with_bytes 1 \<lparr>content = [], capacity = 64\<rparr> (snd example_state)) @ [Warn_Allocated ''c'' 64 10]
   \<and> origSize (heap (state_of (Release (Some 1) (with_bytes 1 \<lparr>content = [], capacity = 64\<rparr> (snd example_state)))) 1) = 64
   \<and> logged (state_of (Release (Some 1) (snd (the (run [Op_Acquire ''d'' 9]
          ({1}, state_of (Release (Some 1) (with_bytes 1 \<lparr>content = [], capacity = 64\<rparr> (snd example_state)))))))))
       = logged (snd (the (run [Op_Acquire ''d'' 9]
          ({1}, state_of (Release (Some 1) (with_bytes 1 \<lparr>content = [], capacity = 64\<rparr> (snd example_state)))))))"
proof -
  define w where "w = with_bytes 1 \<lparr>content = [], capacity = 64\<rparr> (snd example_state)"
  define s2 where "s2 = the (run [Op_Acquire ''d'' 9] ({1}, state_of (Release (Some 1) w)))"
  have i: "pool_inv w" using example_pool_inv by (simp add: w_def pool_inv_bytes)
  have l: "leased w 1" using example_leased(1) by (simp add: w_def leased_bytes)
  have t: "tag (heap w 1) = ''c''" "origSize (heap w 1) = 32" "size_p (pool_obj w) = 10"
    unfolding w_def by code_simp+
  have c: "Cap (bytesBuffer (heap w 1)) = 64"
    by (simp add: w_def with_bytes_def Cap_def)
  have run: "run [Op_Acquire ''d'' 9] ({1}, state_of (Release (Some 1) w)) = Some (fst s2, snd s2)"
    unfolding s2_def w_def by (rule Some_the_pair) code_simp
  have cap2: "Cap (bytesBuffer (heap (snd s2) 1)) \<le> 64"
    unfolding s2_def w_def by code_simp
  note th = Release_growth_warning[OF i l]
  have a: "logged (state_of (Release (Some 1) w)) = logged w @ [Warn_Allocated ''c'' 64 10]"
    using th t c by simp
  have b: "origSize (heap (state_of (Release (Some 1) w)) 1) = 64"
    using th t c by simp
  have "run [Op_Acquire ''d'' 9] ({1}, state_of (Release (Some 1) w)) = Some (fst s2, snd s2) \<and>
        Op_Release 1 \<notin> set [Op_Acquire ''d'' 9] \<and>
        Cap (bytesBuffer (heap (snd s2) 1)) \<le> Cap (bytesBuffer (heap w 1))"
    using run cap2 c by simp
  then have d: "logged (state_of (Release (Some 1) (snd s2))) = logged (snd s2)"
    using th by blast
  from example_pool_inv example_leased(1) a b d show ?thesis
    unfolding w_def s2_def by blast
qed

text \<open>
  C4. \<open>Acquire(tag)\<close> on a valid pool whose channel is not empty returns the head of the
  channel. The buffer is put in the lowest empty slot of \<open>buffersInUse\<close> (every slot
  before it is occupied), its \<open>index\<close> is that slot, and its \<open>tag\<close> and \<open>acquiredAt\<close> are the
  caller's tag and the time of the call.
\<close>

theorem Acquire_lowest_free_slot:
  assumes "pool_inv w" and "queue (buffersAvailable (pool_obj w)) = eb # rest"
  shows "first_nil (buffersInUse (pool_obj w)) < length (buffersInUse (pool_obj w))
    \<and> buffersInUse (pool_obj w) ! first_nil (buffersInUse (pool_obj w)) = None
    \<and> (\<forall>j. j < first_nil (buffersInUse (pool_obj w)) \<longrightarrow> buffersInUse (pool_obj w) ! j \<noteq> None)
    \<and> Acquire PoolRef tg now w = Returns (Some eb) (state_of (Acquire PoolRef tg now w))
    \<and> buffersInUse (pool_obj (state_of (Acquire PoolRef tg now w)))
         = (buffersInUse (pool_obj w))[first_nil (buffersInUse (pool_obj w)) := Some eb]
    \<and> index (heap (state_of (Acquire PoolRef tg now w)) eb) = int (first_nil (buffersInUse (pool_obj w)))
    \<and> tag (heap (state_of (Acquire PoolRef tg now w)) eb) = tg
    \<and> acquiredAt (heap (state_of (Acquire PoolRef tg now w)) eb) = now
    \<and> queue (buffersAvailable (pool_obj (state_of (Acquire PoolRef tg now w)))) = rest"
proof -
  have q: "queue (buffersAvailable (pool_obj w)) \<noteq> []"
    using assms(2) by simp
  note n = first_nil_props[OF pool_inv_free_slot[OF assms(1) q]]
  have a: "Acquire PoolRef tg now w = Returns (Some eb) (acquired tg now w)"
    using Acquire_nonempty[OF assms(1) q, of tg now] assms(2) by simp
  show ?thesis
    unfolding a using n assms(2) by (simp add: acquired_def)
qed

theorem Acquire_lowest_free_slot_witness:
  "pool_inv (state_of (Release (Some 2) (snd example_state)))
   \<and> queue (buffersAvailable (pool_obj (state_of (Release (Some 2) (snd example_state))))) = [2]
   \<and> first_nil (buffersInUse (pool_obj (state_of (Release (Some 2) (snd example_state))))) = 1
   \<and> Acquire PoolRef ''w'' 11 (state_of (Release (Some 2) (snd example_state)))
       = Returns (Some 2) (state_of (Acquire PoolRef ''w'' 11 (state_of (Release (Some 2) (snd example_state)))))
   \<and> buffersInUse (pool_obj (state_of (Acquire PoolRef ''w'' 11 (state_of (Release (Some 2) (snd example_state))))))
       = [Some 1, Some 2]
   \<and> index (heap (state_of (Acquire PoolRef ''w'' 11 (state_of (Release (Some 2) (snd example_state))))) 2) = 1
   \<and> tag (heap (state_of (Acquire PoolRef ''w'' 11 (state_of (Release (Some 2) (snd example_state))))) 2) = ''w''
   \<and> acquiredAt (heap (state_of (Acquire PoolRef ''w'' 11 (state_of (Release (Some 2) (snd example_state))))) 2) = 11"
proof -
  define w where "w = state_of (Release (Some 2) (snd example_state))"
  have r: "w = released 2 (snd example_state)"
    unfolding w_def using Release_leased[OF pool_inv_lease[OF example_pool_inv] example_leased(2)] by simp
  have i: "pool_inv w"
    unfolding r by (rule released_pool_inv[OF example_pool_inv example_leased(2)])
  have q: "queue (buffersAvailable (pool_obj w)) = [2]"
    unfolding w_def by code_simp
  have u: "buffersInUse (pool_obj w) = [Some 1, None]"
    unfolding w_def by code_simp
  have f: "first_nil (buffersInUse (pool_obj w)) = 1"
    unfolding u by (simp add: first_nil_def)
  note th = Acquire_lowest_free_slot[OF i q, of "''w''" 11]
  have a: "Acquire PoolRef ''w'' 11 w = Returns (Some 2) (state_of (Acquire PoolRef ''w'' 11 w))"
    using th by blast
  have b: "buffersInUse (pool_obj (state_of (Acquire PoolRef ''w'' 11 w))) = [Some 1, Some 2]"
    using th u f by simp
  have c: "index (heap (state_of (Acquire PoolRef ''w'' 11 w)) 2) = 1"
    using th f by simp
  have d: "tag (heap (state_of (Acquire PoolRef ''w'' 11 w)) 2) = ''w''"
      "acquiredAt (heap (state_of (Acquire PoolRef ''w'' 11 w)) 2) = 11"
    using th by blast+
  from i q f a b c d show ?thesis
    unfolding w_def by blast
qed

text \<open>
  C5, as amended. For every \<open>Pool\<close> object with \<open>size = 0\<close> or \<open>count = 0\<close> (the zero \<open>Pool\<close>,
  and a pool after \<open>Free\<close>, which leaves \<open>count = 0\<close>): \<open>Acquire\<close> returns \<open>nil\<close> at once without
  touching the channel, \<open>BuffersAvailable\<close> returns 0 and \<open>Free\<close> does nothing. \<open>NewPool\<close> with
  \<open>count <= 0\<close> or \<open>size <= 0\<close> logs an error and returns the \<open>nil\<close> pointer; no \<open>Pool\<close> object
  stands behind it, and \<open>Acquire\<close>, \<open>BuffersAvailable\<close> and \<open>Free\<close> called on it dereference
  \<open>nil\<close> when they read \<open>p.size\<close>: they panic and return nothing.
\<close>

theorem invalid_pool_noop:
  "(cnt \<le> 0 \<or> sz \<le> 0 \<longrightarrow>
      NewPool cnt sz grown w = Returns PoolNil (w\<lparr>logged := logged w @ [Error_InvalidArguments]\<rparr>))
   \<and> (size_p (pool_obj w) = 0 \<or> count (pool_obj w) = 0 \<longrightarrow>
        Acquire PoolRef tg now w = Returns None w \<and>
        BuffersAvailable PoolRef w = Returns 0 w \<and>
        Free PoolRef w = Returns () w)
   \<and> (returns (Free PoolRef w) \<longrightarrow>
        size_p (pool_obj (state_of (Free PoolRef w))) = 0 \<or> count (pool_obj (state_of (Free PoolRef w))) = 0)
   \<and> Acquire PoolNil tg now w = Panics NilPointerDereference w
   \<and> BuffersAvailable PoolNil w = Panics NilPointerDereference w
   \<and> Free PoolNil w = Panics NilPointerDereference w"
proof -
  have a: "cnt \<le> 0 \<or> sz \<le> 0 \<longrightarrow>
      NewPool cnt sz grown w = Returns PoolNil (w\<lparr>logged := logged w @ [Error_InvalidArguments]\<rparr>)"
    by (simp add: NewPool_invalid)
  have b: "size_p (pool_obj w) = 0 \<or> count (pool_obj w) = 0 \<longrightarrow>
        Acquire PoolRef tg now w = Returns None w \<and>
        BuffersAvailable PoolRef w = Returns 0 w \<and>
        Free PoolRef w = Returns () w"
    by (simp add: Acquire_def BuffersAvailable_def Free_def)
  have c: "returns (Free PoolRef w) \<longrightarrow>
        size_p (pool_obj (state_of (Free PoolRef w))) = 0 \<or> count (pool_obj (state_of (Free PoolRef w))) = 0"
  proof
    assume "returns (Free PoolRef w)"
    then obtain w' where w': "Free PoolRef w = Returns () w'"
      by (cases "Free PoolRef w") auto
    from Free_count[OF w'] show "size_p (pool_obj (state_of (Free PoolRef w))) = 0 \<or>
        count (pool_obj (state_of (Free PoolRef w))) = 0"
      using w' by auto
  qed
  have d: "Acquire PoolNil tg now w = Panics NilPointerDereference w"
     "BuffersAvailable PoolNil w = Panics NilPointerDereference w"
     "Free PoolNil w = Panics NilPointerDereference w"
    by (simp_all add: Acquire_def BuffersAvailable_def Free_def)
  show ?thesis using a b c d by blast
qed

theorem invalid_pool_noop_witness:
  "NewPool 0 1000 1000 (fresh_world 0) = Returns PoolNil ((fresh_world 0)\<lparr>logged := [Error_InvalidArguments]\<rparr>)
   \<and> size_p (pool_obj (fresh_world 0)) = 0
   \<and> Acquire PoolRef ''x'' 3 (fresh_world 0) = Returns None (fresh_world 0)
   \<and> BuffersAvailable PoolRef (fresh_world 0) = Returns 0 (fresh_world 0)
   \<and> Free PoolRef (fresh_world 0) = Returns () (fresh_world 0)
   \<and> returns (Free PoolRef example_pool)
   \<and> count (pool_obj (state_of (Free PoolRef example_pool))) = 0
   \<and> Acquire PoolRef ''x'' 3 (state_of (Free PoolRef example_pool)) = Returns None (state_of (Free PoolRef example_pool))
   \<and> BuffersAvailable PoolRef (state_of (Free PoolRef example_pool)) = Returns 0 (state_of (Free PoolRef example_pool))
   \<and> Free PoolRef (state_of (Free PoolRef example_pool)) = Returns () (state_of (Free PoolRef example_pool))"
proof -
  have z: "size_p (pool_obj (fresh_world 0)) = 0" "logged (fresh_world 0) = []"
    by (simp_all add: fresh_world_def zero_Pool_def)
  have n: "NewPool 0 1000 1000 (fresh_world 0) = Returns PoolNil ((fresh_world 0)\<lparr>logged := [Error_InvalidArguments]\<rparr>)"
    using invalid_pool_noop[of 0 1000 1000 "fresh_world 0"] z by simp
  have r: "returns (Free PoolRef example_pool)"
    by code_simp
  have s: "size_p (pool_obj (state_of (Free PoolRef example_pool))) = 10"
    by code_simp
  have c: "count (pool_obj (state_of (Free PoolRef example_pool))) = 0"
    using invalid_pool_noop[of _ _ _ example_pool] r s by simp
  from n z(1) invalid_pool_noop[of 0 0 0 "fresh_world 0" "''x''" 3] r c
    invalid_pool_noop[of 0 0 0 "state_of (Free PoolRef example_pool)" "''x''" 3]
  show ?thesis by simp
qed

text \<open>
  The claim as stated fails for the pointer that \<open>NewPool(ctx, 0, 1000)\<close> returns: the three
  methods panic on it.
\<close>

theorem invalid_pool_nil_counterexample:
  "NewPool 0 1000 1000 (fresh_world 0) = Returns PoolNil ((fresh_world 0)\<lparr>logged := [Error_InvalidArguments]\<rparr>)
   \<and> \<not> returns (Acquire PoolNil ''x'' 3 ((fresh_world 0)\<lparr>logged := [Error_InvalidArguments]\<rparr>))
   \<and> \<not> returns (BuffersAvailable PoolNil ((fresh_world 0)\<lparr>logged := [Error_InvalidArguments]\<rparr>))
   \<and> \<not> returns (Free PoolNil ((fresh_world 0)\<lparr>logged := [Error_InvalidArguments]\<rparr>))
   \<and> panics (Acquire PoolNil ''x'' 3 ((fresh_world 0)\<lparr>logged := [Error_InvalidArguments]\<rparr>))"
  by (simp add: NewPool_def Acquire_def BuffersAvailable_def Free_def fresh_world_def)

text \<open>
  C6. On a pool of \<open>cnt\<close> buffers fresh from \<open>NewPool\<close>, \<open>k <= cnt\<close> calls of \<open>Acquire\<close> in a row
  all return, each a different buffer, and \<open>BuffersAvailable\<close> then returns \<open>cnt - k\<close>. When
  these \<open>k\<close> buffers have been released, in any order, \<open>BuffersAvailable\<close> returns \<open>cnt\<close>. On
  any valid pool whose lock is free, \<open>BuffersAvailable\<close> returns the number of empty slots
  of \<open>buffersInUse\<close> and changes nothing.
\<close>

theorem BuffersAvailable_counts:
  assumes "NewPool cnt sz grown (fresh_world n) = Returns PoolRef w"
    and "length args \<le> nat cnt"
  shows "\<exists>K1 w1. run (map (\<lambda>(tg, now). Op_Acquire tg now) args) ({..<n}, w) = Some (K1, w1)
          \<and> BuffersAvailable PoolRef w1 = Returns (cnt - int (length args)) w1
          \<and> card (K1 - {..<n}) = length args
          \<and> (\<forall>rs. distinct rs \<and> set rs = K1 - {..<n} \<longrightarrow>
                (\<exists>w2. run (map Op_Release rs) (K1, w1) = Some (K1, w2)
                   \<and> BuffersAvailable PoolRef w2 = Returns cnt w2))
          \<and> (\<forall>v. size_p (pool_obj v) \<noteq> 0 \<and> count (pool_obj v) \<noteq> 0 \<and> \<not> lock (pool_obj v) \<longrightarrow>
                BuffersAvailable PoolRef v =
                  Returns (int (length (filter (\<lambda>s. s = None) (buffersInUse (pool_obj v))))) v)"
proof -
  have v: "0 < cnt" "0 < sz"
    using assms(1) by (auto simp: NewPool_def split: if_splits)
  have w: "w = pooled cnt sz grown ((fresh_world n)\<lparr>pool_obj := new_Pool cnt sz\<rparr>)"
    using assms(1) NewPool_valid[OF v, of grown "fresh_world n"] by simp
  have inv: "pool_inv w"
    unfolding w by (rule NewPool_pool_inv[OF v])
  have q: "queue (buffersAvailable (pool_obj w)) = [n ..< n + nat cnt]"
    by (simp add: w pooled_def new_Pool_def fresh_world_def)
  have c: "count (pool_obj w) = cnt"
    by (simp add: w pooled_def new_Pool_def)
  have nol: "\<forall>e. \<not> leased w e"
    by (simp add: w pooled_def new_Pool_def leased_def)
  let ?k = "length args"
  let ?A = "set (take ?k [n ..< n + nat cnt])"
  have len: "?k \<le> length (queue (buffersAvailable (pool_obj w)))"
    using assms(2) q by simp
  from run_acquires[OF inv len, of "{..<n}"] obtain w1 where w1:
    "run (map (\<lambda>(tg, now). Op_Acquire tg now) args) ({..<n}, w) = Some ({..<n} \<union> ?A, w1)"
    "pool_inv w1" "count (pool_obj w1) = cnt"
    "queue (buffersAvailable (pool_obj w1)) = drop ?k [n ..< n + nat cnt]"
    "\<forall>e. leased w1 e \<longleftrightarrow> e \<in> ?A"
    using q c nol by auto
  have A: "({..<n} \<union> ?A) - {..<n} = ?A"
    by (auto dest: in_set_takeD)
  have cardA: "card ?A = ?k"
    using assms(2) by (simp add: distinct_card)
  have b1: "BuffersAvailable PoolRef w1 = Returns (cnt - int ?k) w1"
    using BuffersAvailable_pool_inv[OF w1(2)] w1(4) assms(2) v by simp
  have rel: "\<forall>rs. distinct rs \<and> set rs = ({..<n} \<union> ?A) - {..<n} \<longrightarrow>
                (\<exists>w2. run (map Op_Release rs) ({..<n} \<union> ?A, w1) = Some ({..<n} \<union> ?A, w2)
                   \<and> BuffersAvailable PoolRef w2 = Returns cnt w2)"
  proof (intro allI impI)
    fix rs assume rs: "distinct rs \<and> set rs = ({..<n} \<union> ?A) - {..<n}"
    then have srs: "set rs = ?A" using A by simp
    have lrs: "length rs = ?k"
      using rs srs cardA distinct_card[of rs] by simp
    from run_releases[OF pool_inv_lease[OF w1(2)], of rs "{..<n} \<union> ?A"] rs srs w1(5)
    obtain w2 where w2:
      "run (map Op_Release rs) ({..<n} \<union> ?A, w1) = Some ({..<n} \<union> ?A, w2)"
      "lease_inv w2"
      "count (pool_obj w2) = count (pool_obj w1)" "size_p (pool_obj w2) = size_p (pool_obj w1)"
      "chan_cap (buffersAvailable (pool_obj w2)) = chan_cap (buffersAvailable (pool_obj w1))"
      "length (buffersInUse (pool_obj w2)) = length (buffersInUse (pool_obj w1))"
      "queue (buffersAvailable (pool_obj w2)) = queue (buffersAvailable (pool_obj w1)) @ rs"
      "length (occupied (buffersInUse (pool_obj w2))) + length rs = length (occupied (buffersInUse (pool_obj w1)))"
      by auto
    have inv2: "pool_inv w2"
      by (rule lease_inv_pool_inv[OF w2(2) w1(2) w2(3,4,5,6)]) (use w2(7,8) in simp)
    have "length (queue (buffersAvailable (pool_obj w2))) = nat cnt"
      using w2(7) w1(4) lrs assms(2) by simp
    then have "BuffersAvailable PoolRef w2 = Returns cnt w2"
      using BuffersAvailable_pool_inv[OF inv2] v by simp
    then show "\<exists>w2. run (map Op_Release rs) ({..<n} \<union> ?A, w1) = Some ({..<n} \<union> ?A, w2)
                   \<and> BuffersAvailable PoolRef w2 = Returns cnt w2"
      using w2(1) by blast
  qed
  have gen: "\<forall>v. size_p (pool_obj v) \<noteq> 0 \<and> count (pool_obj v) \<noteq> 0 \<and> \<not> lock (pool_obj v) \<longrightarrow>
                BuffersAvailable PoolRef v =
                  Returns (int (length (filter (\<lambda>s. s = None) (buffersInUse (pool_obj v))))) v"
    using BuffersAvailable_unlocked by blast
  show ?thesis
    apply (rule exI[of _ "{..<n} \<union> ?A"])
    apply (rule exI[of _ w1])
    using w1(1) b1 A cardA rel gen apply simp
    done
qed

theorem BuffersAvailable_counts_witness:
  "count (pool_obj example_pool) = 2
   \<and> BuffersAvailable PoolRef example_pool = Returns 2 example_pool
   \<and> BuffersAvailable PoolRef (snd example_leases) = Returns 0 (snd example_leases)
   \<and> BuffersAvailable PoolRef (snd example_returned) = Returns 2 (snd example_returned)"
proof -
  note th = BuffersAvailable_counts[OF example_pool_new, of "[(''a'', 5), (''b'', 6)]"]
  from th obtain K1 w1 where s1:
    "run (map (\<lambda>(tg, now). Op_Acquire tg now) [(''a'', 5), (''b'', 6)]) ({..<1}, example_pool) = Some (K1, w1)"
    "BuffersAvailable PoolRef w1 = Returns (2 - int (length [(''a'', 5::int), (''b'', 6)])) w1"
    "\<forall>rs. distinct rs \<and> set rs = K1 - {..<1} \<longrightarrow>
        (\<exists>w2. run (map Op_Release rs) (K1, w1) = Some (K1, w2) \<and> BuffersAvailable PoolRef w2 = Returns 2 w2)"
    by auto
  have e1: "example_leases = (K1, w1)"
    by (simp only: example_leases_def s1(1) option.sel)
  have "fst example_leases - {..<1} = set [2, 1]"
    by code_simp
  then have "set [2, 1] = K1 - {..<1}"
    unfolding e1 fst_conv by (rule sym)
  then have "distinct [2, 1::nat] \<and> set [2, 1] = K1 - {..<1}"
    by simp
  with s1(3) obtain w2 where s2:
    "run (map Op_Release [2, 1]) (K1, w1) = Some (K1, w2)" "BuffersAvailable PoolRef w2 = Returns 2 w2"
    by blast
  have e2: "example_returned = (K1, w2)"
    by (simp only: example_returned_def e1 s2(1) option.sel)
  have c: "count (pool_obj example_pool) = 2" "size_p (pool_obj example_pool) \<noteq> 0" "\<not> lock (pool_obj example_pool)"
    "length (filter (\<lambda>s. s = None) (buffersInUse (pool_obj example_pool))) = 2"
    by code_simp+
  have b0: "BuffersAvailable PoolRef example_pool = Returns 2 example_pool"
    using th c by auto
  have f1: "snd example_leases = w1" unfolding e1 by simp
  have f2: "snd example_returned = w2" unfolding e2 by simp
  have b1: "BuffersAvailable PoolRef w1 = Returns 0 w1"
    using s1(2) by simp
  show ?thesis
    unfolding f1 f2 using c(1) b0 b1 s2(2) by blast
qed

text \<open>
  C7. \<open>Free\<close> on a valid pool first sets \<open>count\<close> to 0 under the lock and changes nothing
  else; a pass of the watchdog on that state logs its exit and returns. When no buffer is
  leased the channel holds exactly \<open>count\<close> handles, the loop takes them all, and \<open>Free\<close>
  returns with the channel empty and \<open>buffersInUse\<close> discarded. When some buffer is leased,
  \<open>Free\<close> does not return: the loop takes the handles that are there and blocks on the
  channel at iteration \<open>length queue\<close>. Once the leased buffers have all been released (in
  any order, which \<open>Release\<close> does with \<open>count = 0\<close> as well), the loop goes on from that
  iteration and returns: it has taken \<open>count\<close> handles in all and the channel is empty.
\<close>

theorem Free_drains_pool:
  assumes "pool_inv w"
  shows "Free_signal w = Some (signalled w)
    \<and> poolMonitor_iter now since (signalled w) =
         Returns Exit ((signalled w)\<lparr>logged := logged w @ [Debug_Exiting]\<rparr>)
    \<and> ((\<forall>e. \<not> leased w e) \<longrightarrow>
         length (queue (buffersAvailable (pool_obj w))) = nat (count (pool_obj w)) \<and>
         Free_loop 0 (count (pool_obj w)) (signalled w) = Returns () (drained (nat (count (pool_obj w))) (signalled w)) \<and>
         Free PoolRef w = Returns () (w\<lparr>pool_obj := (pool_obj w)\<lparr>count := 0,
            buffersAvailable := (buffersAvailable (pool_obj w))\<lparr>queue := []\<rparr>, buffersInUse := []\<rparr>\<rparr>))
    \<and> ((\<exists>e. leased w e) \<longrightarrow>
         Free PoolRef w = Blocks OnReceive (drained (length (queue (buffersAvailable (pool_obj w)))) (signalled w)) \<and>
         Free_loop 0 (count (pool_obj w)) (signalled w) =
           Free_loop (int (length (queue (buffersAvailable (pool_obj w))))) (count (pool_obj w))
             (drained (length (queue (buffersAvailable (pool_obj w)))) (signalled w)))
    \<and> (\<forall>rs K. distinct rs \<and> set rs = {e. leased w e} \<and> set rs \<subseteq> K \<longrightarrow>
         (\<exists>wr. run (map Op_Release rs)
                  (K, drained (length (queue (buffersAvailable (pool_obj w)))) (signalled w)) = Some (K, wr) \<and>
               (\<forall>e. \<not> leased wr e) \<and>
               length (queue (buffersAvailable (pool_obj w))) + length rs = nat (count (pool_obj w)) \<and>
               Free_loop (int (length (queue (buffersAvailable (pool_obj w))))) (count (pool_obj w)) wr =
                 Returns () (drained (length rs) wr) \<and>
               queue (buffersAvailable (pool_obj (drained (length rs) wr))) = [] \<and>
               count (pool_obj (drained (length rs) wr)) = 0))"
proof -
  let ?q = "queue (buffersAvailable (pool_obj w))"
  let ?u = "buffersInUse (pool_obj w)"
  let ?cnt = "count (pool_obj w)"
  let ?ws = "signalled w"
  let ?wb = "drained (length ?q) ?ws"
  have li: "lease_inv w" using assms by (rule pool_inv_lease)
  have valid: "size_p (pool_obj w) \<noteq> 0" "?cnt \<noteq> 0" "0 < ?cnt" "\<not> lock (pool_obj w)"
    and sum: "length ?q + length (occupied ?u) = nat ?cnt"
    using assms by (auto simp: pool_inv_def lease_inv_def)
  have sig: "Free_signal w = Some ?ws"
    by (rule Free_signal_unlocked[OF valid(4)])
  have mon: "poolMonitor_iter now since ?ws = Returns Exit (?ws\<lparr>logged := logged w @ [Debug_Exiting]\<rparr>)"
    using valid(4) unlocked_id[of ?ws] by (simp add: poolMonitor_iter_def Lock_def Unlock_def signalled_def)
  have qs: "queue (buffersAvailable (pool_obj ?ws)) = ?q"
    by (simp add: signalled_def)
  have loop: "Free_loop 0 ?cnt ?ws =
     (if nat ?cnt \<le> length ?q then Returns () (drained (nat ?cnt) ?ws) else Blocks OnReceive ?wb)"
    using Free_loop_eq[of 0 ?cnt ?ws] by (simp add: qs)
  have free: "Free PoolRef w =
     (if nat ?cnt \<le> length ?q
      then Returns () ((drained (nat ?cnt) ?ws)\<lparr>pool_obj := (pool_obj (drained (nat ?cnt) ?ws))\<lparr>buffersInUse := []\<rparr>\<rparr>)
      else Blocks OnReceive ?wb)"
    using valid sig loop by (simp add: Free_def)
  have none: "(\<forall>e. \<not> leased w e) \<longleftrightarrow> occupied ?u = []"
    by (auto simp: leased_occupied)
  have c3: "(\<forall>e. \<not> leased w e) \<longrightarrow>
         length ?q = nat ?cnt \<and>
         Free_loop 0 ?cnt ?ws = Returns () (drained (nat ?cnt) ?ws) \<and>
         Free PoolRef w = Returns () (w\<lparr>pool_obj := (pool_obj w)\<lparr>count := 0,
            buffersAvailable := (buffersAvailable (pool_obj w))\<lparr>queue := []\<rparr>, buffersInUse := []\<rparr>\<rparr>)"
  proof
    assume "\<forall>e. \<not> leased w e"
    then have l: "length ?q = nat ?cnt" using none sum by simp
    then show "length ?q = nat ?cnt \<and>
         Free_loop 0 ?cnt ?ws = Returns () (drained (nat ?cnt) ?ws) \<and>
         Free PoolRef w = Returns () (w\<lparr>pool_obj := (pool_obj w)\<lparr>count := 0,
            buffersAvailable := (buffersAvailable (pool_obj w))\<lparr>queue := []\<rparr>, buffersInUse := []\<rparr>\<rparr>)"
      using loop free by (simp add: drained_def signalled_def)
  qed
  have skip: "Free_loop 0 ?cnt ?ws = Free_loop (int (length ?q)) ?cnt ?wb"
    using sum unfolding Free_loop_eq[of 0 ?cnt ?ws] Free_loop_eq[of "int (length ?q)" ?cnt ?wb]
    by (auto simp: blocked_frame qs drained_def)
  have c4: "(\<exists>e. leased w e) \<longrightarrow>
         Free PoolRef w = Blocks OnReceive ?wb \<and>
         Free_loop 0 ?cnt ?ws = Free_loop (int (length ?q)) ?cnt ?wb"
  proof
    assume "\<exists>e. leased w e"
    then have "occupied ?u \<noteq> []" using none by blast
    then have "length ?q < nat ?cnt" using sum by (cases "occupied ?u") auto
    then show "Free PoolRef w = Blocks OnReceive ?wb \<and>
         Free_loop 0 ?cnt ?ws = Free_loop (int (length ?q)) ?cnt ?wb"
      using free skip by simp
  qed
  have c5: "\<forall>rs K. distinct rs \<and> set rs = {e. leased w e} \<and> set rs \<subseteq> K \<longrightarrow>
         (\<exists>wr. run (map Op_Release rs) (K, ?wb) = Some (K, wr) \<and>
               (\<forall>e. \<not> leased wr e) \<and>
               length ?q + length rs = nat ?cnt \<and>
               Free_loop (int (length ?q)) ?cnt wr = Returns () (drained (length rs) wr) \<and>
               queue (buffersAvailable (pool_obj (drained (length rs) wr))) = [] \<and>
               count (pool_obj (drained (length rs) wr)) = 0)"
  proof (intro allI impI)
    fix rs K assume a: "distinct rs \<and> set rs = {e. leased w e} \<and> set rs \<subseteq> K"
    have lb: "lease_inv ?wb" by (rule lease_inv_blocked[OF li])
    have all: "\<forall>e\<in>set rs. leased ?wb e"
      using a by (simp add: blocked_frame)
    from run_releases[OF lb _ all, of K] a obtain wr where wr:
      "run (map Op_Release rs) (K, ?wb) = Some (K, wr)"
      "count (pool_obj wr) = 0"
      "queue (buffersAvailable (pool_obj wr)) = rs"
      "\<forall>e. leased wr e \<longleftrightarrow> leased ?wb e \<and> e \<notin> set rs"
      by (auto simp: blocked_frame)
    have "distinct (occupied ?u)" using li by (simp add: lease_inv_def)
    moreover have "set rs = set (occupied ?u)"
      using a by (auto simp: leased_occupied)
    ultimately have lrs: "length rs = length (occupied ?u)"
      using a distinct_card[of rs] distinct_card[of "occupied ?u"] by simp
    have n: "nat (?cnt - int (length ?q)) = length rs"
      using sum lrs by linarith
    have fl: "Free_loop (int (length ?q)) ?cnt wr = Returns () (drained (length rs) wr)"
      unfolding Free_loop_eq[of "int (length ?q)" ?cnt wr] by (simp add: n wr(3))
    have nl: "\<forall>e. \<not> leased wr e"
      using wr(4) a by (simp add: blocked_frame)
    show "\<exists>wr. run (map Op_Release rs) (K, ?wb) = Some (K, wr) \<and>
               (\<forall>e. \<not> leased wr e) \<and>
               length ?q + length rs = nat ?cnt \<and>
               Free_loop (int (length ?q)) ?cnt wr = Returns () (drained (length rs) wr) \<and>
               queue (buffersAvailable (pool_obj (drained (length rs) wr))) = [] \<and>
               count (pool_obj (drained (length rs) wr)) = 0"
      using wr(1,2,3) fl nl sum lrs by (intro exI[of _ wr]) (simp add: drained_def)
  qed
  show ?thesis
    using sig mon c3 c4 c5 by blast
qed

theorem Free_drains_pool_witness:
  "pool_inv example_pool
   \<and> Free PoolRef example_pool = Returns () (example_pool\<lparr>pool_obj := (pool_obj example_pool)\<lparr>count := 0,
        buffersAvailable := (buffersAvailable (pool_obj example_pool))\<lparr>queue := []\<rparr>, buffersInUse := []\<rparr>\<rparr>)
   \<and> poolMonitor_iter 0 (\<lambda>t. 0) (signalled example_pool) =
        Returns Exit ((signalled example_pool)\<lparr>logged := logged example_pool @ [Debug_Exiting]\<rparr>)
   \<and> pool_inv (snd example_state) \<and> leased (snd example_state) 1
   \<and> Free PoolRef (snd example_state) = Blocks OnReceive (drained 0 (signalled (snd example_state)))
   \<and> returns (Free_loop 0 2 (snd (the (run (map Op_Release [2, 1])
        ({1, 2}, drained 0 (signalled (snd example_state)))))))"
proof -
  note th1 = Free_drains_pool[OF example_pool_pool_inv, of 0 "\<lambda>t. 0"]
  have u1: "buffersInUse (pool_obj example_pool) = [None, None]"
    by code_simp
  have nl: "\<forall>e. \<not> leased example_pool e"
    by (simp add: leased_def u1)
  have a: "Free PoolRef example_pool = Returns () (example_pool\<lparr>pool_obj := (pool_obj example_pool)\<lparr>count := 0,
        buffersAvailable := (buffersAvailable (pool_obj example_pool))\<lparr>queue := []\<rparr>, buffersInUse := []\<rparr>\<rparr>)"
    using th1 nl by blast
  have m: "poolMonitor_iter 0 (\<lambda>t. 0) (signalled example_pool) =
        Returns Exit ((signalled example_pool)\<lparr>logged := logged example_pool @ [Debug_Exiting]\<rparr>)"
    using th1 by blast
  note th2 = Free_drains_pool[OF example_pool_inv, of 0 "\<lambda>t. 0"]
  have q: "length (queue (buffersAvailable (pool_obj (snd example_state)))) = 0"
    by code_simp
  have c: "count (pool_obj (snd example_state)) = 2"
    by code_simp
  have u: "buffersInUse (pool_obj (snd example_state)) = [Some 1, Some 2]"
    by code_simp
  have ex: "\<exists>e. leased (snd example_state) e"
    using example_leased(1) by blast
  have b: "Free PoolRef (snd example_state) = Blocks OnReceive (drained 0 (signalled (snd example_state)))"
    using th2 ex q by simp
  have s: "distinct [2, 1::nat] \<and> set [2, 1] = {e. leased (snd example_state) e} \<and> set [2, 1] \<subseteq> {1, 2::nat}"
    by (auto simp: leased_def u)
  from th2 s obtain wr where wr:
    "run (map Op_Release [2, 1]) ({1, 2}, drained (length (queue (buffersAvailable (pool_obj (snd example_state)))))
        (signalled (snd example_state))) = Some ({1, 2}, wr)"
    "Free_loop (int (length (queue (buffersAvailable (pool_obj (snd example_state))))))
        (count (pool_obj (snd example_state))) wr = Returns () (drained (length [2, 1::nat]) wr)"
    by blast
  have e: "snd (the (run (map Op_Release [2, 1]) ({1, 2}, drained 0 (signalled (snd example_state))))) = wr"
    using wr(1) unfolding q by (simp only: option.sel snd_conv)
  have r: "returns (Free_loop 0 2 wr)"
    using wr(2) unfolding q c by simp
  show ?thesis
    unfolding e using example_pool_pool_inv a m example_pool_inv example_leased(1) b r by blast
qed

text \<open>
  C8, as amended. In every state that a valid pool reaches from \<open>NewPool\<close> and in which it is
  still valid: a buffer is leased exactly when an \<open>Acquire\<close> has returned it and no \<open>Release\<close>
  of it has returned since, and its tag is then the tag passed to that \<open>Acquire\<close>, empty or
  not (\<open>lease_tags\<close> is the record of these tags along the sequence of calls; \<open>Acquire\<close> stamps
  the buffer it returns and leaves the tag of every leased buffer as it is). A leased
  buffer has the position of its slot as \<open>index\<close>, which lies in \<open>0 <= index < count\<close> and so is
  not \<open>-1\<close>. A buffer in the channel is not leased and has an empty tag, and its \<open>index\<close> is
  \<open>-1\<close> when \<open>Acquire\<close> has handed it out before (it came back through \<open>Release\<close>). Every
  \<open>Buffer\<close> with a non-empty tag is leased, and no \<open>Buffer\<close> with \<open>index = -1\<close> is leased.
\<close>

theorem leased_state_invariant:
  assumes "NewPool cnt sz grown (fresh_world n) = Returns PoolRef w0"
    and "run ops ({..<n}, w0) = Some (K, w)"
    and "count (pool_obj w) \<noteq> 0"
  shows "(\<forall>eb. leased w eb \<longrightarrow>
            index (heap w eb) \<noteq> - 1 \<and> 0 \<le> index (heap w eb) \<and> index (heap w eb) < count (pool_obj w) \<and>
            buffersInUse (pool_obj w) ! nat (index (heap w eb)) = Some eb)
    \<and> (\<forall>eb. eb \<in> set (queue (buffersAvailable (pool_obj w))) \<longrightarrow> \<not> leased w eb \<and> tag (heap w eb) = [])
    \<and> (\<forall>eb. eb \<in> K \<and> eb \<in> set (queue (buffersAvailable (pool_obj w))) \<longrightarrow> index (heap w eb) = - 1)
    \<and> (\<forall>tg now eb rest. queue (buffersAvailable (pool_obj w)) = eb # rest \<longrightarrow>
            leased (state_of (Acquire PoolRef tg now w)) eb \<and>
            tag (heap (state_of (Acquire PoolRef tg now w)) eb) = tg)
    \<and> (\<forall>tg now e. leased w e \<longrightarrow> tag (heap (state_of (Acquire PoolRef tg now w)) e) = tag (heap w e))
    \<and> (\<forall>eb. leased w eb \<longleftrightarrow> lease_tags ops ({..<n}, w0) Map.empty eb \<noteq> None)
    \<and> (\<forall>eb. leased w eb \<longrightarrow> lease_tags ops ({..<n}, w0) Map.empty eb = Some (tag (heap w eb)))
    \<and> (\<forall>eb. tag (heap w eb) \<noteq> [] \<longrightarrow> leased w eb)
    \<and> (\<forall>eb. index (heap w eb) = - 1 \<longrightarrow> \<not> leased w eb)"
proof -
  have ci0: "caller_inv ({..<n}, w0)"
    by (rule NewPool_caller_inv[OF assms(1)])
  have ci: "caller_inv (K, w)"
    using run_caller_inv[OF ci0 assms(2)] assms(3) by simp
  then have inv: "pool_inv w" and held: "held_ok K w" by (simp_all add: caller_inv_def)
  have li: "lease_inv w" using inv by (rule pool_inv_lease)
  have len: "length (buffersInUse (pool_obj w)) = nat (count (pool_obj w))" "0 < count (pool_obj w)"
    using inv by (simp_all add: pool_inv_def)
  have ti: "tags_inv (lease_tags ops ({..<n}, w0) Map.empty) w"
    using run_tags_inv[OF ci0 _ assms(2)] NewPool_tags_inv[OF assms(1)] assms(3) by simp
  have a: "\<forall>eb. leased w eb \<longrightarrow>
            index (heap w eb) \<noteq> - 1 \<and> 0 \<le> index (heap w eb) \<and> index (heap w eb) < count (pool_obj w) \<and>
            buffersInUse (pool_obj w) ! nat (index (heap w eb)) = Some eb"
  proof (intro allI impI)
    fix eb assume l: "leased w eb"
    note f = lease_inv_leased[OF li l]
    show "index (heap w eb) \<noteq> - 1 \<and> 0 \<le> index (heap w eb) \<and> index (heap w eb) < count (pool_obj w) \<and>
            buffersInUse (pool_obj w) ! nat (index (heap w eb)) = Some eb"
      using f(2,3,4) len by auto
  qed
  have b: "\<forall>eb. eb \<in> set (queue (buffersAvailable (pool_obj w))) \<longrightarrow> \<not> leased w eb \<and> tag (heap w eb) = []"
    using lease_inv_leased(6)[OF li] li by (auto simp: lease_inv_def)
  have c: "\<forall>eb. eb \<in> K \<and> eb \<in> set (queue (buffersAvailable (pool_obj w))) \<longrightarrow> index (heap w eb) = - 1"
    using held_ok_queue[OF li held] by blast
  have d: "\<forall>tg now eb rest. queue (buffersAvailable (pool_obj w)) = eb # rest \<longrightarrow>
            leased (state_of (Acquire PoolRef tg now w)) eb \<and>
            tag (heap (state_of (Acquire PoolRef tg now w)) eb) = tg"
  proof (intro allI impI)
    fix tg now eb rest assume q: "queue (buffersAvailable (pool_obj w)) = eb # rest"
    then have ne: "queue (buffersAvailable (pool_obj w)) \<noteq> []" by simp
    have s: "state_of (Acquire PoolRef tg now w) = acquired tg now w"
      using Acquire_nonempty[OF inv ne, of tg now] by simp
    show "leased (state_of (Acquire PoolRef tg now w)) eb \<and>
            tag (heap (state_of (Acquire PoolRef tg now w)) eb) = tg"
      unfolding s using acquired_leased[OF inv ne, of tg now eb] q by (simp add: acquired_def)
  qed
  have e: "\<forall>tg now e. leased w e \<longrightarrow> tag (heap (state_of (Acquire PoolRef tg now w)) e) = tag (heap w e)"
    using Acquire_keeps_leased_tag[OF inv] by blast
  have f: "\<forall>eb. leased w eb \<longleftrightarrow> lease_tags ops ({..<n}, w0) Map.empty eb \<noteq> None"
    using ti unfolding tags_inv_def by (metis option.distinct(1))
  have g: "\<forall>eb. leased w eb \<longrightarrow> lease_tags ops ({..<n}, w0) Map.empty eb = Some (tag (heap w eb))"
    using ti unfolding tags_inv_def by blast
  have h: "\<forall>eb. tag (heap w eb) \<noteq> [] \<longrightarrow> leased w eb"
    using ti unfolding tags_inv_def by blast
  have i: "\<forall>eb. index (heap w eb) = - 1 \<longrightarrow> \<not> leased w eb"
    using a by blast
  show ?thesis using a b c d e f g h i by blast
qed

theorem leased_state_invariant_witness:
  "count (pool_obj (snd example_mixed)) \<noteq> 0
   \<and> leased (snd example_mixed) 1 \<and> index (heap (snd example_mixed) 1) \<noteq> - 1
   \<and> 2 \<in> fst example_mixed \<and> 2 \<in> set (queue (buffersAvailable (pool_obj (snd example_mixed))))
   \<and> \<not> leased (snd example_mixed) 2 \<and> tag (heap (snd example_mixed) 2) = []
   \<and> index (heap (snd example_mixed) 2) = - 1
   \<and> lease_tags (example_ops @ [Op_Release 2]) ({..<1}, example_pool) Map.empty 1 = Some ''c''
   \<and> tag (heap (snd example_mixed) 1) = ''c''
   \<and> lease_tags (example_ops @ [Op_Release 2]) ({..<1}, example_pool) Map.empty 2 = None
   \<and> leased (snd example_state) 2
   \<and> lease_tags example_ops ({..<1}, example_pool) Map.empty 2 = Some ''b''
   \<and> tag (heap (snd example_state) 2) = ''b''"
proof -
  have f: "count (pool_obj (snd example_mixed)) \<noteq> 0" "leased (snd example_mixed) 1"
    "2 \<in> fst example_mixed" "2 \<in> set (queue (buffersAvailable (pool_obj (snd example_mixed))))"
    "tag (heap (snd example_mixed) 1) = ''c''" "tag (heap (snd example_state) 2) = ''b''"
    by code_simp+
  note th1 = leased_state_invariant[OF example_pool_new example_mixed_run f(1)]
  note th2 = leased_state_invariant[OF example_pool_new example_run example_count]
  have a: "index (heap (snd example_mixed) 1) \<noteq> - 1" using th1 f(2) by blast
  have b: "\<not> leased (snd example_mixed) 2" "tag (heap (snd example_mixed) 2) = []"
    "index (heap (snd example_mixed) 2) = - 1"
    using th1 f(3,4) by blast+
  have c: "lease_tags (example_ops @ [Op_Release 2]) ({..<1}, example_pool) Map.empty 1 = Some ''c''"
    using th1 f(2,5) by simp
  have d: "lease_tags (example_ops @ [Op_Release 2]) ({..<1}, example_pool) Map.empty 2 = None"
    using th1 b(1) by blast
  have e: "lease_tags example_ops ({..<1}, example_pool) Map.empty 2 = Some ''b''"
    using th2 example_leased(2) f(6) by simp
  from f a b c d e example_leased(2) show ?thesis by blast
qed

text \<open>
  The claim as stated fails after \<open>Acquire("")\<close> on the example pool: the buffer returned is
  leased and its tag is empty. The other buffer has never been acquired: it is in the
  channel with the \<open>index\<close> 0 that the struct literal of \<open>NewPool\<close> left.
\<close>

theorem leased_tag_counterexample:
  "NewPool 2 10 16 (fresh_world 1) = Returns PoolRef example_pool
   \<and> Acquire PoolRef [] 5 example_pool = Returns (Some 1) example_untagged
   \<and> count (pool_obj example_untagged) \<noteq> 0
   \<and> leased example_untagged 1 \<and> tag (heap example_untagged 1) = []
   \<and> \<not> (tag (heap example_untagged 1) \<noteq> [] \<longleftrightarrow> leased example_untagged 1)
   \<and> \<not> leased example_untagged 2 \<and> index (heap example_untagged 2) = 0
   \<and> \<not> (index (heap example_untagged 2) \<noteq> - 1 \<longleftrightarrow> leased example_untagged 2)"
proof -
  have q: "queue (buffersAvailable (pool_obj example_pool)) \<noteq> []" "hd (queue (buffersAvailable (pool_obj example_pool))) = 1"
    by code_simp+
  have a: "Acquire PoolRef [] 5 example_pool = Returns (Some 1) example_untagged"
    using Acquire_nonempty[OF example_pool_pool_inv q(1), of "[]" 5] q(2)
    by (simp add: example_untagged_def)
  have f: "count (pool_obj example_untagged) \<noteq> 0" "leased example_untagged 1" "tag (heap example_untagged 1) = []"
    "\<not> leased example_untagged 2" "index (heap example_untagged 2) = 0"
    by code_simp+
  show ?thesis
    using example_pool_new a f by simp
qed

text \<open>
  C9. One pass of the watchdog changes nothing but the log. When it gets the lock it
  either logs the exit message (\<open>count\<close> is 0) or one warning, with tag and time held, for
  each occupied slot whose buffer was acquired more than 100 ms before \<open>now\<close>, in slot
  order; the \<open>Pool\<close> object with its slots and its channel, and every \<open>Buffer\<close>, are as
  before, so no buffer is reclaimed.
\<close>

theorem poolMonitor_observes_only:
  "poolMonitor_iter now since w =
     (if lock (pool_obj w) then Blocks OnLock w
      else if count (pool_obj w) = 0 then Returns Exit (w\<lparr>logged := logged w @ [Debug_Exiting]\<rparr>)
      else Returns Sleep (w\<lparr>logged := logged w @
             map (\<lambda>eb. Warn_Held (tag (heap w eb)) (since (acquiredAt (heap w eb))))
               (filter (\<lambda>eb. acquiredAt (heap w eb) + 100000000 < now) (occupied (buffersInUse (pool_obj w))))\<rparr>))
   \<and> pool_obj (state_of (poolMonitor_iter now since w)) = pool_obj w
   \<and> heap (state_of (poolMonitor_iter now since w)) = heap w
   \<and> allocated (state_of (poolMonitor_iter now since w)) = allocated w"
proof -
  have eq: "poolMonitor_iter now since w =
     (if lock (pool_obj w) then Blocks OnLock w
      else if count (pool_obj w) = 0 then Returns Exit (w\<lparr>logged := logged w @ [Debug_Exiting]\<rparr>)
      else Returns Sleep (w\<lparr>logged := logged w @
             map (\<lambda>eb. Warn_Held (tag (heap w eb)) (since (acquiredAt (heap w eb))))
               (filter (\<lambda>eb. acquiredAt (heap w eb) + 100000000 < now) (occupied (buffersInUse (pool_obj w))))\<rparr>))"
  proof (cases "lock (pool_obj w)")
    case True
    then show ?thesis by (simp add: poolMonitor_iter_def Lock_def)
  next
    case False
    then have p: "(pool_obj w)\<lparr>lock := False\<rparr> = pool_obj w"
      by (cases "pool_obj w") simp
    have w: "w\<lparr>pool_obj := pool_obj w\<rparr> = w" by simp
    show ?thesis
      using False p
      by (simp add: poolMonitor_iter_def Lock_def Unlock_def poolMonitor_scan_eq)
  qed
  show ?thesis
    using eq poolMonitor_iter_frame[of now since w] by blast
qed

theorem poolMonitor_observes_only_witness:
  "poolMonitor_iter 100000007 (\<lambda>t. 100000008 - t) (snd example_state) =
     Returns Sleep ((snd example_state)\<lparr>logged := logged (snd example_state) @ [Warn_Held ''b'' 100000002]\<rparr>)"
proof -
  have f: "lock (pool_obj (snd example_state)) = False" "count (pool_obj (snd example_state)) = 2"
     "buffersInUse (pool_obj (snd example_state)) = [Some 1, Some 2]"
     "acquiredAt (heap (snd example_state) 1) = 7" "acquiredAt (heap (snd example_state) 2) = 6"
     "tag (heap (snd example_state) 2) = ''b''"
    by code_simp+
  show ?thesis
    using poolMonitor_observes_only[of 100000007 "\<lambda>t. 100000008 - t" "snd example_state"] f
    by simp
qed

text \<open>
  C10. \<open>Release\<close> writes \<open>buffersInUse[eb.index]\<close> without a bounds check. For a buffer that is
  leased from a valid pool the index is in range (\<open>0 <= index < count\<close>) and \<open>Release\<close>
  returns. A second \<open>Release\<close> of the same buffer finds the index \<open>-1\<close> and panics with the
  index out of range, while it holds the lock, instead of doing nothing. In general, for a
  buffer with a pool and an unlocked pool, \<open>Release\<close> panics exactly when the index is
  outside the slice.
\<close>

theorem Release_twice_out_of_range:
  assumes "pool_inv w" and "leased w eb"
  shows "returns (Release (Some eb) w)
    \<and> 0 \<le> index (heap w eb) \<and> index (heap w eb) < count (pool_obj w)
    \<and> Release (Some eb) (state_of (Release (Some eb) w)) =
        Panics (IndexOutOfRange (- 1) (length (buffersInUse (pool_obj w))))
          ((state_of (Release (Some eb) w))\<lparr>pool_obj := (pool_obj (state_of (Release (Some eb) w)))\<lparr>lock := True\<rparr>\<rparr>)
    \<and> (\<forall>w' e. pool (heap w' e) \<noteq> PoolNil \<and> \<not> lock (pool_obj w') \<longrightarrow>
          (panics (Release (Some e) w') \<longleftrightarrow>
           \<not> (0 \<le> index (heap w' e) \<and> index (heap w' e) < int (length (buffersInUse (pool_obj w'))))))"
proof -
  have li: "lease_inv w" using assms(1) by (rule pool_inv_lease)
  note f = lease_inv_leased[OF li assms(2)]
  have r: "Release (Some eb) w = Returns () (released eb w)"
    by (rule Release_leased[OF li assms(2)])
  have s: "state_of (Release (Some eb) w) = released eb w"
    using r by simp
  have range: "0 \<le> index (heap w eb) \<and> index (heap w eb) < count (pool_obj w)"
    using f(2,3) assms(1) by (simp add: pool_inv_def)
  have again: "Release (Some eb) (released eb w) =
        Panics (IndexOutOfRange (index (heap (released eb w) eb)) (length (buffersInUse (pool_obj (released eb w)))))
          ((released eb w)\<lparr>pool_obj := (pool_obj (released eb w))\<lparr>lock := True\<rparr>\<rparr>)"
    by (rule Release_index_out_of_range) (use f(1) in \<open>simp_all add: released_def Cap_def Reset_def max_def\<close>)
  have again': "Release (Some eb) (released eb w) =
        Panics (IndexOutOfRange (- 1) (length (buffersInUse (pool_obj w))))
          ((released eb w)\<lparr>pool_obj := (pool_obj (released eb w))\<lparr>lock := True\<rparr>\<rparr>)"
    using again by (simp add: released_def)
  have gen: "\<forall>w' e. pool (heap w' e) \<noteq> PoolNil \<and> \<not> lock (pool_obj w') \<longrightarrow>
          (panics (Release (Some e) w') \<longleftrightarrow>
           \<not> (0 \<le> index (heap w' e) \<and> index (heap w' e) < int (length (buffersInUse (pool_obj w')))))"
    using Release_panics_iff by blast
  show ?thesis
    unfolding s using r range again' gen by simp
qed

theorem Release_twice_out_of_range_witness:
  "pool_inv (snd example_state) \<and> leased (snd example_state) 2
   \<and> returns (Release (Some 2) (snd example_state))
   \<and> index (heap (snd example_state) 2) = 1
   \<and> Release (Some 2) (state_of (Release (Some 2) (snd example_state))) =
        Panics (IndexOutOfRange (- 1) 2)
          ((state_of (Release (Some 2) (snd example_state)))
             \<lparr>pool_obj := (pool_obj (state_of (Release (Some 2) (snd example_state))))\<lparr>lock := True\<rparr>\<rparr>)
   \<and> panics (Release (Some 2) (state_of (Release (Some 2) (snd example_state))))"
proof -
  have u: "length (buffersInUse (pool_obj (snd example_state))) = 2" "index (heap (snd example_state) 2) = 1"
    by code_simp+
  note th = Release_twice_out_of_range[OF example_pool_inv example_leased(2)]
  have a: "returns (Release (Some 2) (snd example_state))"
    using th by blast
  have b: "Release (Some 2) (state_of (Release (Some 2) (snd example_state))) =
        Panics (IndexOutOfRange (- 1) 2)
          ((state_of (Release (Some 2) (snd example_state)))
             \<lparr>pool_obj := (pool_obj (state_of (Release (Some 2) (snd example_state))))\<lparr>lock := True\<rparr>\<rparr>)"
    using th u(1) by simp
  have c: "panics (Release (Some 2) (state_of (Release (Some 2) (snd example_state))))"
    unfolding b by simp
  from example_pool_inv example_leased(2) a u(2) b c show ?thesis by blast
qed

end
